theory Spec2Isabelle
  imports Complex_Main "HOL-Library.Product_Lexorder" "HOL-Library.List_Lexorder"
    "HOL-Library.Char_ord" "HOL-Library.Multiset"
begin

section \<open>Economic Indicators Extractor: the embedded program\<close>

text \<open>
  The definitions of this first part are translated from \<^verbatim>\<open>src/src/main.py\<close>, function by
  function and under the source's names. Database tables are lists of rows, the cursor's
  statements are functions on those lists, Python's \<^verbatim>\<open>None\<close> is \<open>None\<close>, and every exception
  the source can raise on a modelled path is a value of the result type.
\<close>

subsection \<open>Gap filler (\<^verbatim>\<open>forward_backward_fill_indicator\<close>)\<close>

text \<open>
  An indicator table is keyed by date. Indicator dates are days on the calendar line (the
  proleptic ordinal of a \<^verbatim>\<open>datetime.date\<close>): they are only compared and shifted by whole days.
  For one column, a row of the table is its date and the cell, \<open>None\<close> for SQL \<^verbatim>\<open>NULL\<close>.
\<close>

type_synonym day = int
type_synonym 'v cell = "day \<times> 'v option"

text \<open>\<^verbatim>\<open>SELECT date, column FROM table ORDER BY date\<close>\<close>

definition select_ordered :: "'v cell list \<Rightarrow> 'v cell list" where
  "select_ordered tbl = sort_key fst tbl"

text \<open>\<^verbatim>\<open>next((r[1] for r in records if r[1] is not None), None)\<close>\<close>

definition first_valid_value :: "'v cell list \<Rightarrow> 'v option" where
  "first_valid_value records =
     (case filter (\<lambda>r. snd r \<noteq> None) records of [] \<Rightarrow> None | r # _ \<Rightarrow> snd r)"

text \<open>The loop over \<^verbatim>\<open>records\<close> that tracks \<^verbatim>\<open>last_known_value\<close> and appends to \<^verbatim>\<open>updates\<close>.\<close>

fun collect_updates :: "'v \<Rightarrow> 'v cell list \<Rightarrow> ('v \<times> day) list" where
  "collect_updates last_known_value [] = []"
| "collect_updates last_known_value ((d, Some v) # records) = collect_updates v records"
| "collect_updates last_known_value ((d, None) # records) =
     (last_known_value, d) # collect_updates last_known_value records"

text \<open>
  One \<^verbatim>\<open>UPDATE table SET column = %s WHERE date = %s AND column IS NULL\<close>, and
  \<^verbatim>\<open>executemany\<close>, which runs it for each parameter pair in turn.
\<close>

definition update_null_cell :: "'v \<times> day \<Rightarrow> 'v cell \<Rightarrow> 'v cell" where
  "update_null_cell u r = (if fst r = snd u \<and> snd r = None then (fst r, Some (fst u)) else r)"

definition executemany :: "('v \<times> day) list \<Rightarrow> 'v cell list \<Rightarrow> 'v cell list" where
  "executemany updates tbl = foldl (\<lambda>t u. map (update_null_cell u) t) tbl updates"

definition forward_backward_fill_indicator :: "'v cell list \<Rightarrow> 'v cell list" where
  "forward_backward_fill_indicator tbl =
     (let records = select_ordered tbl in
      if records = [] then tbl
      else case first_valid_value records of
        None \<Rightarrow> tbl
      | Some first_valid \<Rightarrow>
          (let updates = collect_updates first_valid records in
           if updates = [] then tbl else executemany updates tbl))"

text \<open>
  Auxiliary notions for the proofs: what a batch of updates does to one row, the updates
  the function issues, and the value the loop holds after a prefix of the records.
\<close>

definition filled_cell :: "('v \<times> day) list \<Rightarrow> 'v cell \<Rightarrow> 'v cell" where
  "filled_cell updates r =
     (case snd r of
        Some v \<Rightarrow> r
      | None \<Rightarrow> (case find (\<lambda>u. snd u = fst r) updates of
                   None \<Rightarrow> r
                 | Some u \<Rightarrow> (fst r, Some (fst u))))"

definition fill_updates :: "'v cell list \<Rightarrow> ('v \<times> day) list" where
  "fill_updates tbl =
     (case first_valid_value (select_ordered tbl) of
        None \<Rightarrow> []
      | Some fv \<Rightarrow> collect_updates fv (select_ordered tbl))"

fun last_known :: "'v \<Rightarrow> 'v cell list \<Rightarrow> 'v" where
  "last_known v [] = v"
| "last_known v ((d, Some w) # rs) = last_known w rs"
| "last_known v ((d, None) # rs) = last_known v rs"

subsection \<open>Split-ratio formatting (\<^verbatim>\<open>compute_split_ratio_str\<close>)\<close>

text \<open>
  \<^verbatim>\<open>Decimal(str(factor))\<close> is the library's parser; the model starts from its outcome. A
  finite decimal is a signed coefficient and an exponent, \<open>Finite c e\<close> standing for
  \<open>c * 10^e\<close> (so \<^verbatim>\<open>Decimal('2.0')\<close> is \<open>Finite 20 (-1)\<close>); the constructor is exact, whatever the
  number of digits. \<open>Missing\<close> is \<^verbatim>\<open>None\<close>, \<open>Blank\<close> the empty string and \<open>Unparseable\<close> any
  input on which the constructor raises.
\<close>

datatype decimal = Finite int int | Infinity bool | NaN

datatype factor = Missing | Blank | Unparseable | Parsed decimal

definition dec_value :: "int \<Rightarrow> int \<Rightarrow> rat" where
  "dec_value c e = (if 0 \<le> e then of_int c * 10 ^ nat e else of_int c / 10 ^ nat (- e))"

text \<open>\<^verbatim>\<open>ROUND_HALF_EVEN\<close>, the rounding of the default decimal context.\<close>

definition round_half_even :: "rat \<Rightarrow> int" where
  "round_half_even x =
     (let n = \<lfloor>x\<rfloor>; r = x - of_int n in
      if r < 1 / 2 then n else if 1 / 2 < r then n + 1 else if even n then n else n + 1)"

fun ndigits :: "nat \<Rightarrow> nat" where
  "ndigits n = (if n < 10 then 1 else Suc (ndigits (n div 10)))"

text \<open>The adjusted exponent of a non-zero number: the exponent of its leading digit.\<close>

definition adjusted :: "rat \<Rightarrow> int" where
  "adjusted x =
     (let a = \<bar>x\<bar> in
      if 1 \<le> a then int (ndigits (nat \<lfloor>a\<rfloor>)) - 1
      else (let m = int (ndigits (nat \<lfloor>1 / a\<rfloor>)) - 1 in
            if a * 10 ^ nat m = 1 then - m else - m - 1))"

text \<open>The default context's precision, in significant digits.\<close>

definition prec :: nat where
  "prec = 28"

text \<open>
  An arithmetic result is the exact one rounded to \<open>prec\<close> significant digits; this is what
  \<^verbatim>\<open>Decimal(1) / f\<close> returns.
\<close>

definition round_prec :: "rat \<Rightarrow> rat" where
  "round_prec x =
     (if x = 0 then 0
      else (let s = int prec - 1 - adjusted x in
            if 0 \<le> s then of_int (round_half_even (x * 10 ^ nat s)) / 10 ^ nat s
            else of_int (round_half_even (x / 10 ^ nat (- s))) * 10 ^ nat (- s)))"

text \<open>
  \<^verbatim>\<open>x.quantize(Decimal(1))\<close> rounds to an integer and raises \<^verbatim>\<open>InvalidOperation\<close> (here \<open>None\<close>)
  when the result needs more than \<open>prec\<close> digits.
\<close>

definition quantize :: "rat \<Rightarrow> int option" where
  "quantize x = (let n = round_half_even x in if \<bar>n\<bar> < 10 ^ prec then Some n else None)"

text \<open>The decimal numeral of an integer, as an f-string prints it.\<close>

fun digits :: "nat \<Rightarrow> string" where
  "digits n =
     (if n < 10 then [''0123456789'' ! n]
      else digits (n div 10) @ [''0123456789'' ! (n mod 10)])"

definition str_int :: "int \<Rightarrow> string" where
  "str_int i = (if i < 0 then CHR ''-'' # digits (nat (- i)) else digits (nat i))"

text \<open>
  Every exception inside the \<^verbatim>\<open>try\<close> ends in \<^verbatim>\<open>return None\<close>: a comparison with a NaN, the
  quantization of an infinity or of a number with too many digits, a division by zero.
  Dividing by the negative infinity raises nothing: the quotient is a negative zero, which
  quantizes to zero.
\<close>

definition compute_split_ratio_str :: "factor \<Rightarrow> string option" where
  "compute_split_ratio_str factor =
     (case factor of
        Missing \<Rightarrow> None
      | Blank \<Rightarrow> None
      | Unparseable \<Rightarrow> None
      | Parsed NaN \<Rightarrow> None
      | Parsed (Infinity negative) \<Rightarrow> (if negative then Some ''Reverse 0-for-1'' else None)
      | Parsed (Finite c e) \<Rightarrow>
          (let f = dec_value c e in
           if f = 1 then None
           else if 1 < f then
             (case quantize f of
                None \<Rightarrow> None
              | Some n \<Rightarrow> Some (str_int n @ ''-for-1''))
           else if f = 0 then None
           else (case quantize (round_prec (1 / f)) of
                   None \<Rightarrow> None
                 | Some n \<Rightarrow> Some (''Reverse '' @ str_int n @ ''-for-1''))))"

subsection \<open>Events, stored rows and detail payloads\<close>

text \<open>
  An event date is a \<^verbatim>\<open>datetime.date\<close>, kept as (year, month, day); pairs are ordered
  lexicographically, which is the order of dates.
\<close>

type_synonym date = "nat \<times> nat \<times> nat"

definition year :: "date \<Rightarrow> nat" where
  "year d = fst d"

definition month :: "date \<Rightarrow> nat" where
  "month d = fst (snd d)"

definition valid_date :: "date \<Rightarrow> bool" where
  "valid_date d = (1 \<le> year d \<and> year d \<le> 9999 \<and> 1 \<le> month d \<and> month d \<le> 12
                   \<and> 1 \<le> snd (snd d) \<and> snd (snd d) \<le> 31)"

text \<open>
  \<^verbatim>\<open>d.strftime('%Y-%m-%d')\<close>. Month and day are written with two digits. The year is
  written by the C library of the platform; the model follows glibc, which writes a year
  below 1000 without leading zeros, so that its text is shorter than four characters.
  Strings are compared as Python compares them, character by character, a proper prefix
  first.

  Where the source only tests two such texts for equality (the identity keys of
  \<^verbatim>\<open>batch_insert_events\<close>), the model keeps the dates themselves: the year ends at the first
  hyphen, so two dates with the same text are equal.
\<close>

definition pad2 :: "nat \<Rightarrow> string" where
  "pad2 n = (if n < 10 then CHR ''0'' # digits n else digits n)"

definition strftime :: "date \<Rightarrow> string" where
  "strftime d = digits (year d) @ ''-'' @ pad2 (month d) @ ''-'' @ pad2 (snd (snd d))"

text \<open>
  A detail payload is a Python dict with string keys, in insertion order. The values the
  normalizer stores are \<^verbatim>\<open>None\<close>, integers and strings; JSON serialisation and parsing
  return such a dict unchanged.
\<close>

datatype jval = JNull | JInt int | JStr string

type_synonym payload = "(string \<times> jval) list"

text \<open>\<^verbatim>\<open>d.get(k)\<close>: a missing key and a key bound to \<^verbatim>\<open>None\<close> both give \<^verbatim>\<open>None\<close>.\<close>

definition dict_get :: "payload \<Rightarrow> string \<Rightarrow> jval" where
  "dict_get d k = (case map_of d k of None \<Rightarrow> JNull | Some v \<Rightarrow> v)"

text \<open>\<^verbatim>\<open>k in d\<close>\<close>

definition has_key :: "payload \<Rightarrow> string \<Rightarrow> bool" where
  "has_key d k = (map_of d k \<noteq> None)"

text \<open>\<^verbatim>\<open>d.pop(k, None)\<close>\<close>

definition dict_pop :: "payload \<Rightarrow> string \<Rightarrow> payload" where
  "dict_pop d k = filter (\<lambda>kv. fst kv \<noteq> k) d"

text \<open>Python truthiness of a value, and \<^verbatim>\<open>a or b\<close>.\<close>

definition truthy :: "jval \<Rightarrow> bool" where
  "truthy v = (case v of JNull \<Rightarrow> False | JInt n \<Rightarrow> n \<noteq> 0 | JStr s \<Rightarrow> s \<noteq> [])"

definition py_or :: "jval \<Rightarrow> jval \<Rightarrow> jval" where
  "py_or a b = (if truthy a then a else b)"

text \<open>
  The event dictionaries built by \<^verbatim>\<open>process_events\<close>; \<open>details = None\<close> is a payload that is
  \<^verbatim>\<open>None\<close>.
\<close>

record event =
  event_pk :: int
  announcement_date :: "date option"
  start_date :: "date option"
  details :: "payload option"

text \<open>
  The notes column of a stored row, as \<^verbatim>\<open>batch_insert_events\<close> reads it: \<open>NotesNull\<close> for
  \<^verbatim>\<open>NULL\<close> or the empty string, \<open>NotesDict\<close> for text that parses to a JSON object, and
  \<open>NotesText\<close> for any other text (invalid JSON, or a JSON value that is not an object).
\<close>

datatype event_notes = NotesNull | NotesDict payload | NotesText string

text \<open>
  The columns of \<^verbatim>\<open>asset_events_data\<close> that the function reads or that identify a row.
  The UUID, the creator and modifier, the two timestamps and the activity flag are written
  on insertion and never read.
\<close>

record row =
  row_pk :: int
  row_id :: int
  row_event_pk :: int
  row_ann :: "date option"
  row_start :: "date option"
  row_notes :: event_notes

text \<open>The identity key \<^verbatim>\<open>(event_pk, ann_str, start_str)\<close>.\<close>

type_synonym key = "int \<times> date option \<times> date option"

definition event_key :: "event \<Rightarrow> key" where
  "event_key e = (event_pk e, announcement_date e, start_date e)"

definition row_key :: "row \<Rightarrow> key" where
  "row_key r = (row_event_pk r, row_ann r, row_start r)"

text \<open>\<^verbatim>\<open>needle in haystack\<close> on strings.\<close>

fun is_prefix :: "string \<Rightarrow> string \<Rightarrow> bool" where
  "is_prefix [] ys = True"
| "is_prefix (x # xs) [] = False"
| "is_prefix (x # xs) (y # ys) = (x = y \<and> is_prefix xs ys)"

fun contains :: "string \<Rightarrow> string \<Rightarrow> bool" where
  "contains needle [] = (needle = [])"
| "contains needle (c # cs) = (is_prefix needle (c # cs) \<or> contains needle cs)"

text \<open>
  The flag computed for each existing row. For text that is not a JSON object, the tests
  on the parsed value raise or fail, and the \<^verbatim>\<open>except\<close> branch tests the raw text.
\<close>

definition is_expected :: "row \<Rightarrow> bool" where
  "is_expected r =
     (case row_notes r of
        NotesNull \<Rightarrow> False
      | NotesDict notes_dict \<Rightarrow>
          row_event_pk r = 2
          \<and> (has_key notes_dict ''estimate''
               \<or> dict_get notes_dict ''source'' = JStr ''earnings_calendar'')
      | NotesText s \<Rightarrow>
          row_event_pk r = 2 \<and> (contains ''earnings_calendar'' s \<or> contains ''estimate'' s))"

text \<open>\<^verbatim>\<open>f"Q{((d.month-1)//3)+1}"\<close>\<close>

definition quarter_of :: "date \<Rightarrow> string" where
  "quarter_of d = CHR ''Q'' # digits ((month d - 1) div 3 + 1)"

text \<open>\<^verbatim>\<open>s.isdigit()\<close> and \<^verbatim>\<open>int(s)\<close> for a string of ASCII digits.\<close>

definition isdigit :: "string \<Rightarrow> bool" where
  "isdigit s = (s \<noteq> [] \<and> list_all (\<lambda>c. c \<in> set ''0123456789'') s)"

definition digit_value :: "char \<Rightarrow> nat" where
  "digit_value c = of_char c - 48"

definition int_of_digits :: "string \<Rightarrow> int" where
  "int_of_digits s = int (foldl (\<lambda>n c. 10 * n + digit_value c) 0 s)"

text \<open>
  The helper \<^verbatim>\<open>_extract_qy\<close>: quarter and year from the notes, else from the start date or
  the announcement date.
\<close>

definition extract_qy :: "event_notes \<Rightarrow> date option \<Rightarrow> date option \<Rightarrow> string option \<times> int option" where
  "extract_qy notes_obj start ann =
     (let (q0, y0) = (case notes_obj of
                        NotesDict d \<Rightarrow> (py_or (dict_get d ''quarter'') (dict_get d ''q''),
                                        py_or (dict_get d ''year'') (dict_get d ''y''))
                      | _ \<Rightarrow> (JNull, JNull));
          (q, y) = (if q0 = JNull \<or> y0 = JNull
                    then (case (case start of Some d \<Rightarrow> Some d | None \<Rightarrow> ann) of
                            Some d \<Rightarrow> (JStr (quarter_of d), JInt (int (year d)))
                          | None \<Rightarrow> (q0, y0))
                    else (q0, y0))
      in ((case q of
             JNull \<Rightarrow> None
           | JInt n \<Rightarrow> (if n \<noteq> 0 then Some (str_int n) else None)
           | JStr s \<Rightarrow> (if s \<noteq> [] then Some s else None)),
          (case y of
             JNull \<Rightarrow> None
           | JInt n \<Rightarrow> Some n
           | JStr s \<Rightarrow> (if isdigit s then Some (int_of_digits s) else None))))"

text \<open>
  The two indexes of expected earnings. \<open>indexed_qy r\<close> is the key under which row \<open>r\<close> is
  entered in \<^verbatim>\<open>expected_by_qy\<close>, if it is entered at all (\<^verbatim>\<open>if q and y\<close>).
\<close>

definition indexed_qy :: "row \<Rightarrow> (string \<times> int) option" where
  "indexed_qy r =
     (case extract_qy (row_notes r) (row_start r) (row_ann r) of
        (Some q, Some y) \<Rightarrow> (if q \<noteq> [] \<and> y \<noteq> 0 then Some (q, y) else None)
      | _ \<Rightarrow> None)"

definition expected_by_qy :: "row list \<Rightarrow> string \<times> int \<Rightarrow> int set" where
  "expected_by_qy existing_rows qy =
     set (map row_pk (filter (\<lambda>r. is_expected r \<and> indexed_qy r = Some qy) existing_rows))"

definition expected_by_start :: "row list \<Rightarrow> date \<Rightarrow> int set" where
  "expected_by_start existing_rows d =
     set (map row_pk (filter (\<lambda>r. is_expected r \<and> row_start r = Some d) existing_rows))"

text \<open>
  \<^verbatim>\<open>is_new_actual\<close>, and the quarter and year under which a new actual event is looked up:
  from its details when both are truthy, else from its start date, else from its
  announcement date.
\<close>

definition is_new_actual :: "event \<Rightarrow> bool" where
  "is_new_actual e =
     (event_pk e = 2
      \<and> (case details e of None \<Rightarrow> False | Some d \<Rightarrow> dict_get d ''estimate'' = JNull))"

definition new_event_qy :: "event \<Rightarrow> jval \<times> jval" where
  "new_event_qy e =
     (let d = (case details e of Some d \<Rightarrow> d | None \<Rightarrow> []);
          q = dict_get d ''quarter'';
          y = dict_get d ''year''
      in if truthy q \<and> truthy y then (q, y)
         else (case start_date e of
                 Some s \<Rightarrow> (JStr (quarter_of s), JInt (int (year s)))
               | None \<Rightarrow>
                   (case announcement_date e of
                      Some a \<Rightarrow> (JStr (quarter_of a), JInt (int (year a)))
                    | None \<Rightarrow> (q, y))))"

text \<open>
  The placeholders a new actual event marks for deletion. A tuple \<^verbatim>\<open>(q, y)\<close> is a key of
  \<^verbatim>\<open>expected_by_qy\<close> only when \<^verbatim>\<open>q\<close> is a string and \<^verbatim>\<open>y\<close> an integer: the index keys are
  (string, integer) pairs, and Python never equates a string with an integer.
\<close>

definition placeholders_hit :: "row list \<Rightarrow> event \<Rightarrow> int set" where
  "placeholders_hit existing_rows e =
     (case new_event_qy e of
        (JStr q, JInt y) \<Rightarrow> (if q \<noteq> [] \<and> y \<noteq> 0 then expected_by_qy existing_rows (q, y) else {})
      | _ \<Rightarrow> {})
     \<union> (case start_date e of Some s \<Rightarrow> expected_by_start existing_rows s | None \<Rightarrow> {})"

text \<open>
  The plan built by the loop over the incoming events: the events kept for insertion, the
  placeholders to delete, and the note updates.
\<close>

record plan =
  new_events :: "event list"
  expected_to_delete :: "int set"
  events_to_update :: "(int \<times> event_notes) list"

text \<open>\<^verbatim>\<open>json.dumps(sanitize_for_text(details))\<close>, as the row will be read back.\<close>

definition notes_json :: "payload option \<Rightarrow> event_notes" where
  "notes_json det = (case det of None \<Rightarrow> NotesText ''null'' | Some d \<Rightarrow> NotesDict d)"

text \<open>
  One iteration of the loop over the incoming events. \<^verbatim>\<open>existing_set\<close> is a Python set with
  one (key, PK, flag) triple for each stored row, and the inner loop visits it in an order
  that Python does not fix, stopping at the first equal key. Here \<open>existing_set\<close> is the list
  of the stored rows in the order in which their triples are visited, and \<open>existing_rows\<close>
  the rows as they were fetched, from which the two indexes were built.
\<close>

definition reconcile :: "row list \<Rightarrow> row list \<Rightarrow> plan \<Rightarrow> event \<Rightarrow> plan" where
  "reconcile existing_set existing_rows p e =
     (case find (\<lambda>r. row_key r = event_key e) existing_set of
        Some r \<Rightarrow>
          (if is_expected r \<and> is_new_actual e
           then p\<lparr>events_to_update := events_to_update p @ [(row_pk r, notes_json (details e))]\<rparr>
           else p)
      | None \<Rightarrow>
          (if is_new_actual e
           then p\<lparr>expected_to_delete := expected_to_delete p \<union> placeholders_hit existing_rows e,
                  new_events := new_events p @ [e]\<rparr>
           else p\<lparr>new_events := new_events p @ [e]\<rparr>))"

definition make_plan :: "row list \<Rightarrow> row list \<Rightarrow> event list \<Rightarrow> plan" where
  "make_plan existing_set existing_rows events =
     foldl (reconcile existing_set existing_rows)
       \<lparr>new_events = [], expected_to_delete = {}, events_to_update = []\<rparr> events"

text \<open>The three statements that apply a plan, and \<^verbatim>\<open>COALESCE(MAX(column), 0)\<close>.\<close>

definition delete_rows :: "int set \<Rightarrow> row list \<Rightarrow> row list" where
  "delete_rows pks tbl = filter (\<lambda>r. row_pk r \<notin> pks) tbl"

definition update_notes :: "row list \<Rightarrow> int \<times> event_notes \<Rightarrow> row list" where
  "update_notes tbl u = map (\<lambda>r. if row_pk r = fst u then r\<lparr>row_notes := snd u\<rparr> else r) tbl"

fun max_of :: "int list \<Rightarrow> int option" where
  "max_of [] = None"
| "max_of (x # xs) = (case max_of xs of None \<Rightarrow> Some x | Some m \<Rightarrow> Some (max x m))"

definition coalesce_max :: "int list \<Rightarrow> int" where
  "coalesce_max xs = (case max_of xs of None \<Rightarrow> 0 | Some m \<Rightarrow> m)"

text \<open>
  The row written for the \<open>i\<close>-th new event: the payload is serialised after its
  \<^verbatim>\<open>'source'\<close> key has been popped.
\<close>

definition insert_notes :: "payload option \<Rightarrow> event_notes" where
  "insert_notes det =
     notes_json (case det of
                   None \<Rightarrow> None
                 | Some d \<Rightarrow> Some (if has_key d ''source'' then dict_pop d ''source'' else d))"

definition new_row :: "int \<Rightarrow> int \<Rightarrow> nat \<times> event \<Rightarrow> row" where
  "new_row next_pk next_id iev =
     \<lparr>row_pk = next_pk + int (fst iev), row_id = next_id + int (fst iev),
      row_event_pk = event_pk (snd iev), row_ann = announcement_date (snd iev),
      row_start = start_date (snd iev), row_notes = insert_notes (details (snd iev))\<rparr>"

text \<open>
  \<^verbatim>\<open>batch_insert_events\<close>: the table afterwards and the returned count. The parameter
  \<open>iteration\<close> is the order in which \<^verbatim>\<open>existing_set\<close> is visited: it maps the fetched rows to
  the list of them in that order. The statements that depend on it ask only that it lists
  exactly the stored rows, \<open>set (iteration tbl) = set tbl\<close>. The log list
  \<^verbatim>\<open>assets_no_new_events\<close> is not part of the model.
\<close>

definition batch_insert_events ::
  "(row list \<Rightarrow> row list) \<Rightarrow> row list \<Rightarrow> event list \<Rightarrow> row list \<times> nat" where
  "batch_insert_events iteration tbl events =
     (if events = [] then (tbl, 0)
      else
        (let p = make_plan (iteration tbl) tbl events;
             tbl1 = (if expected_to_delete p \<noteq> {} then delete_rows (expected_to_delete p) tbl
                     else tbl);
             tbl2 = foldl update_notes tbl1 (events_to_update p)
         in if new_events p = [] then (tbl2, length (events_to_update p))
            else
              (let next_pk = coalesce_max (map row_pk tbl2) + 1;
                   next_id = coalesce_max (map row_id tbl2) + 1
               in (tbl2 @ map (new_row next_pk next_id) (enumerate 0 (new_events p)),
                   length (new_events p) + length (events_to_update p)))))"

text \<open>
  The two halves of the table after a call, named for the statements below: the old rows
  that survive the deletion, with their notes updated, and the rows appended by the bulk
  insert.
\<close>

definition surviving_rows :: "(row list \<Rightarrow> row list) \<Rightarrow> row list \<Rightarrow> event list \<Rightarrow> row list" where
  "surviving_rows iteration tbl events =
     foldl update_notes
       (delete_rows (expected_to_delete (make_plan (iteration tbl) tbl events)) tbl)
       (events_to_update (make_plan (iteration tbl) tbl events))"

definition inserted_rows :: "(row list \<Rightarrow> row list) \<Rightarrow> row list \<Rightarrow> event list \<Rightarrow> row list" where
  "inserted_rows iteration tbl events =
     map (new_row (coalesce_max (map row_pk (surviving_rows iteration tbl events)) + 1)
                  (coalesce_max (map row_id (surviving_rows iteration tbl events)) + 1))
         (enumerate 0 (new_events (make_plan (iteration tbl) tbl events)))"


subsection \<open>Rate-series retention and the pre-insertion sort (\<^verbatim>\<open>process_events\<close>)\<close>

text \<open>
  The rate series is parsed into the list \<^verbatim>\<open>parsed\<close> of (date, value text) pairs; the dates
  are \<^verbatim>\<open>date\<close> objects and compare as dates. \<^verbatim>\<open>{(d, v) for d, v in parsed}\<close> is a set of
  pairs: equal pairs are kept once, and the set is iterated in an order that Python does
  not fix. That order is the parameter \<open>iteration\<close>, applied to the pairs without their
  repetitions; the statements below ask of it only that it rearranges them. The call
  \<^verbatim>\<open>sorted(..., key=lambda x: x[0], reverse=True)\<close> is a stable sort that keeps equal keys in
  their original order, and \<^verbatim>\<open>parsed[:12]\<close> keeps the first twelve entries.
\<close>

definition sorted_reverse :: "(date \<times> string) list \<Rightarrow> (date \<times> string) list" where
  "sorted_reverse xs = rev (sort_key fst (rev xs))"

definition federal_funds_rates ::
  "((date \<times> string) list \<Rightarrow> (date \<times> string) list) \<Rightarrow> (date \<times> string) list
   \<Rightarrow> (date \<times> string) list" where
  "federal_funds_rates iteration parsed =
     (if parsed = [] then []
      else take 12 (sorted_reverse (iteration (remdups parsed))))"

text \<open>
  The upstream calls of one run, in order: the rate series before the loop over the
  symbols, then the four event sources of each symbol whose table can be read.
\<close>

datatype api_call =
  Call_FEDERAL_FUNDS_RATE
  | Call_EARNINGS string
  | Call_EARNINGS_CALENDAR string
  | Call_DIVIDENDS string
  | Call_STOCK_SPLITS string

definition symbol_calls :: "string \<Rightarrow> api_call list" where
  "symbol_calls symbol =
     [Call_EARNINGS symbol, Call_EARNINGS_CALENDAR symbol, Call_DIVIDENDS symbol,
      Call_STOCK_SPLITS symbol]"

definition process_events_calls :: "(string \<Rightarrow> bool) \<Rightarrow> string list \<Rightarrow> api_call list" where
  "process_events_calls accessible us_symbols =
     Call_FEDERAL_FUNDS_RATE # concat (map symbol_calls (filter accessible us_symbols))"

text \<open>
  The local function \<^verbatim>\<open>sort_key\<close> of \<^verbatim>\<open>process_events\<close>. The date component is the text of
  the announcement date, or \<^verbatim>\<open>'9999-12-31'\<close> when there is none; the priorities 2.1 and 2.2
  are kept as rationals, where they compare with the integer kind codes as the floats do.
  Keys are compared as Python compares tuples: by the texts, then by the priorities.
\<close>

definition event_sort_key :: "event \<Rightarrow> string \<times> rat" where
  "event_sort_key ev =
     (let date_sort = (case announcement_date ev of Some d \<Rightarrow> strftime d | None \<Rightarrow> ''9999-12-31'');
          type_priority =
            (if event_pk ev = 2
             then (case details ev of
                     None \<Rightarrow> 22 / 10
                   | Some d \<Rightarrow> if d \<noteq> [] \<and> dict_get d ''estimate'' = JNull then 21 / 10 else 22 / 10)
             else of_int (event_pk ev))
      in (date_sort, type_priority))"

text \<open>\<^verbatim>\<open>all_events.sort(key=sort_key)\<close>, a stable sort.\<close>

definition sort_events :: "event list \<Rightarrow> event list" where
  "sort_events all_events = sort_key event_sort_key all_events"

subsection \<open>Indicator ingestion (\<^verbatim>\<open>process_economic_indicators\<close>)\<close>

text \<open>
  One log table per interval. A row has the surrogate key, the identifier, the date and
  the indicator columns, \<open>None\<close> for \<^verbatim>\<open>NULL\<close>; the constant country column is left out. The
  stored values are of a type \<open>'v\<close>: the model does not look into them.
\<close>

datatype interval = Daily | Weekly | Monthly | Quarterly | Semiannual | Annual

record 'v ind_row =
  ir_pk :: int
  ir_id :: int
  ir_date :: day
  ir_cols :: "string \<Rightarrow> 'v option"

definition prefix_map :: "interval \<Rightarrow> string" where
  "prefix_map l = (case l of Daily \<Rightarrow> ''D'' | Weekly \<Rightarrow> ''W'' | Monthly \<Rightarrow> ''M''
                   | Quarterly \<Rightarrow> ''Q'' | Semiannual \<Rightarrow> ''SA'' | Annual \<Rightarrow> ''A'')"

text \<open>The column suffix of each indicator in \<^verbatim>\<open>indicator_map\<close>.\<close>

definition indicator_map :: "string \<Rightarrow> string option" where
  "indicator_map indicator =
     map_of [(''real_GDP_interval_list'', ''RGDPBUSD_value''),
             (''real_GDP_pc_interval_list'', ''RGDPCBUSD_value''),
             (''Treasury_yield_interval_list'', ''TCMRP_value''),
             (''Federal_funds_interval_list'', ''EFFRP_value''),
             (''CPI_interval_list'', ''CPIAUC_value''),
             (''inflation_interval_list'', ''ICPP_value''),
             (''retail_sales_interval_list'', ''ARSRTMUSD_value''),
             (''durables_interval_list'', ''MNODGMUSD_value''),
             (''unemployment_interval_list'', ''URP_value''),
             (''nonfarm_payrolls_interval_list'', ''TNPTP_value'')] indicator"

text \<open>
  The watermark: \<^verbatim>\<open>SELECT MAX(date) ... WHERE column IS NOT NULL\<close>, and \<^verbatim>\<open>prev_date\<close>, which
  falls back to 2000-01-01 (day 730120) when the column holds no value.
\<close>

definition watermark :: "'v ind_row list \<Rightarrow> string \<Rightarrow> day option" where
  "watermark tbl col = max_of (map ir_date (filter (\<lambda>r. ir_cols r col \<noteq> None) tbl))"

definition prev_date_of :: "'v ind_row list \<Rightarrow> string \<Rightarrow> day" where
  "prev_date_of tbl col = (case watermark tbl col of None \<Rightarrow> 730120 | Some d \<Rightarrow> d)"

text \<open>
  An upstream entry: its date, \<open>None\<close> when reading or parsing \<^verbatim>\<open>entry['date']\<close> raises, and its
  value text, \<open>None\<close> when reading \<^verbatim>\<open>entry['value']\<close> raises. A fetch either raises or returns
  the list the loop iterates over (for a payload without a \<^verbatim>\<open>'data'\<close> list this is the
  payload itself, whose elements are then unreadable entries).
\<close>

record entry =
  entry_date :: "day option"
  entry_value :: "string option"

datatype response = Raises | Payload "entry list"

datatype error = FetchError | EntryError | ConversionError

text \<open>
  The numeric conversion of a value text, \<^verbatim>\<open>float(v)\<close> or \<^verbatim>\<open>int(float(v))\<close>: a value, a
  \<^verbatim>\<open>ValueError\<close> or \<^verbatim>\<open>TypeError\<close> (caught: the entry is skipped), or another exception such
  as the \<^verbatim>\<open>OverflowError\<close> of \<^verbatim>\<open>int(float('inf'))\<close> (not caught). The conversion itself is
  the library's and is a parameter of the model; its first argument tells whether the
  column is an integer column.
\<close>

datatype 'v conv = Converted 'v | Skipped | Uncaught

definition is_int_column :: "string \<Rightarrow> bool" where
  "is_int_column column_name =
     (column_name \<in> set [''MTNPTP_value'', ''TNPTP_value'', ''DTCMRP_value'']
      \<or> contains ''TNPTP_value'' column_name \<or> contains ''DTCMRP_value'' column_name)"

text \<open>
  The list comprehension that keeps the entries dated after \<^verbatim>\<open>prev_date\<close>; it parses every
  date, so one unreadable entry makes it raise. The result is in upstream order.
\<close>

fun filter_new :: "day \<Rightarrow> entry list \<Rightarrow> error + (day \<times> string option) list" where
  "filter_new prev_date [] = Inr []"
| "filter_new prev_date (e # es) =
     (case entry_date e of
        None \<Rightarrow> Inl EntryError
      | Some d \<Rightarrow>
          (case filter_new prev_date es of
             Inl err \<Rightarrow> Inl err
           | Inr rest \<Rightarrow> Inr (if prev_date < d then (d, entry_value e) # rest else rest)))"

text \<open>\<^verbatim>\<open>date_data[date][column_name] = value\<close> on a dict that keeps insertion order.\<close>

fun dict_set :: "(day \<times> 'v) list \<Rightarrow> day \<Rightarrow> 'v \<Rightarrow> (day \<times> 'v) list" where
  "dict_set [] d v = [(d, v)]"
| "dict_set ((d', v') # rest) d v =
     (if d' = d then (d, v) # rest else (d', v') # dict_set rest d v)"

text \<open>
  The body of the loop over \<^verbatim>\<open>new_data\<close>, for one entry: it is dropped (\<^verbatim>\<open>continue\<close>), it
  raises, or its value is stored under a date. Only for the column \<^verbatim>\<open>WEFFRP_value\<close> is the
  date moved back five days, and an entry that lands on \<^verbatim>\<open>prev_date\<close> dropped.
\<close>

datatype 'v outcome = Drop | Raise error | Store day 'v

definition entry_outcome ::
  "(bool \<Rightarrow> string \<Rightarrow> 'v conv) \<Rightarrow> string \<Rightarrow> day \<Rightarrow> day \<times> string option \<Rightarrow> 'v outcome" where
  "entry_outcome convert column_name prev_date x =
     (let date = (if column_name = ''WEFFRP_value'' then fst x - 5 else fst x) in
      if column_name = ''WEFFRP_value'' \<and> date = prev_date then Drop
      else
        (case snd x of
           None \<Rightarrow> Raise EntryError
         | Some s \<Rightarrow>
             if s = ''.'' \<or> s = [] then Drop
             else
               (case convert (is_int_column column_name) s of
                  Skipped \<Rightarrow> Drop
                | Uncaught \<Rightarrow> Raise ConversionError
                | Converted v \<Rightarrow> Store date v)))"

text \<open>The loop itself, filling \<^verbatim>\<open>date_data\<close>.\<close>

fun build_date_data ::
  "(bool \<Rightarrow> string \<Rightarrow> 'v conv) \<Rightarrow> string \<Rightarrow> day \<Rightarrow> (day \<times> string option) list
   \<Rightarrow> (day \<times> 'v) list \<Rightarrow> error + (day \<times> 'v) list" where
  "build_date_data convert column_name prev_date [] date_data = Inr date_data"
| "build_date_data convert column_name prev_date (x # rest) date_data =
     (case entry_outcome convert column_name prev_date x of
        Drop \<Rightarrow> build_date_data convert column_name prev_date rest date_data
      | Raise err \<Rightarrow> Inl err
      | Store date v \<Rightarrow>
          build_date_data convert column_name prev_date rest (dict_set date_data date v))"

text \<open>
  \<^verbatim>\<open>existing_dates\<close>: the dict built from the (date, PK) pairs of the rows whose date is
  among the new dates; a later pair overrides an earlier one.
\<close>

definition existing_dates :: "'v ind_row list \<Rightarrow> day \<Rightarrow> int option" where
  "existing_dates tbl d =
     (case filter (\<lambda>r. ir_date r = d) tbl of [] \<Rightarrow> None | rs \<Rightarrow> Some (ir_pk (last rs)))"

text \<open>
  The split into updates \<^verbatim>\<open>(value, pk, column)\<close> and inserts \<^verbatim>\<open>(id, date, value)\<close>; the
  identifier advances for every date, updated or inserted.
\<close>

fun split_rows ::
  "'v ind_row list \<Rightarrow> string \<Rightarrow> int \<Rightarrow> (day \<times> 'v) list
   \<Rightarrow> ('v \<times> int \<times> string) list \<times> (int \<times> day \<times> 'v) list" where
  "split_rows tbl col last_id [] = ([], [])"
| "split_rows tbl col last_id ((d, v) # rest) =
     (let (updates, inserts) = split_rows tbl col (last_id + 1) rest in
      case existing_dates tbl d of
        Some pk \<Rightarrow> ((v, pk, col) # updates, inserts)
      | None \<Rightarrow> (updates, (last_id + 1, d, v) # inserts))"

text \<open>
  One \<^verbatim>\<open>UPDATE ... SET column = %s WHERE PK = %s\<close>, and the rows the \<^verbatim>\<open>COPY\<close> appends; the
  database assigns their surrogate keys, here the next free ones.
\<close>

definition update_cell :: "'v ind_row list \<Rightarrow> 'v \<times> int \<times> string \<Rightarrow> 'v ind_row list" where
  "update_cell tbl u =
     map (\<lambda>r. if ir_pk r = fst (snd u)
               then r\<lparr>ir_cols := (ir_cols r)(snd (snd u) \<mapsto> fst u)\<rparr> else r) tbl"

definition copy_rows :: "'v ind_row list \<Rightarrow> string \<Rightarrow> (int \<times> day \<times> 'v) list \<Rightarrow> 'v ind_row list" where
  "copy_rows tbl col inserts =
     tbl @ map (\<lambda>(i, ins). \<lparr>ir_pk = coalesce_max (map ir_pk tbl) + 1 + int i, ir_id = fst ins,
                             ir_date = fst (snd ins),
                             ir_cols = (\<lambda>c. None)(col \<mapsto> snd (snd ins))\<rparr>)
             (enumerate 0 inserts)"

text \<open>
  What the body of the inner loop does for one supported (indicator, interval) pair: the
  updates and inserts it issues, whether it reports the pair as already available, and
  the table afterwards. An exception leaves the body before any statement that writes.
\<close>

record 'v pair_result =
  pr_updates :: "('v \<times> int \<times> string) list"
  pr_inserts :: "(int \<times> day \<times> 'v) list"
  pr_available :: bool
  pr_table :: "'v ind_row list"

definition ingest_pair ::
  "(bool \<Rightarrow> string \<Rightarrow> 'v conv) \<Rightarrow> 'v ind_row list \<Rightarrow> string \<Rightarrow> response
   \<Rightarrow> error + 'v pair_result" where
  "ingest_pair convert tbl column_name data =
     (let prev_date = prev_date_of tbl column_name;
          last_id = coalesce_max (map ir_id tbl)
      in case data of
           Raises \<Rightarrow> Inl FetchError
         | Payload data_list \<Rightarrow>
             (case filter_new prev_date data_list of
                Inl err \<Rightarrow> Inl err
              | Inr kept \<Rightarrow>
                  (let new_data = rev kept in
                   if new_data = []
                   then Inr \<lparr>pr_updates = [], pr_inserts = [], pr_available = True, pr_table = tbl\<rparr>
                   else
                     (case build_date_data convert column_name prev_date new_data [] of
                        Inl err \<Rightarrow> Inl err
                      | Inr date_data \<Rightarrow>
                          (let (updates, inserts) = split_rows tbl column_name last_id date_data
                           in Inr \<lparr>pr_updates = updates, pr_inserts = inserts,
                                   pr_available = False,
                                   pr_table = copy_rows (foldl update_cell tbl updates)
                                                column_name inserts\<rparr>)))))"

text \<open>
  The two nested loops. \<open>items\<close> pairs each indicator with its supported intervals and
  \<open>fetch\<close> is the outcome of the upstream call for an indicator and an interval. A pair
  whose interval is not supported, or whose indicator is not in the map, is skipped. There
  is no handler around the body: the first exception ends the function, with the tables as
  the pairs before it left them.
\<close>

record 'v run_state =
  rs_tables :: "interval \<Rightarrow> 'v ind_row list"
  rs_available :: "(string \<times> interval \<times> day) list"
  rs_inserted :: nat
  rs_log :: "((string \<times> interval) \<times> 'v pair_result) list"

definition pairs_of :: "interval list \<Rightarrow> (string \<times> interval list) list \<Rightarrow> (string \<times> interval) list" where
  "pairs_of interval_list items =
     concat (map (\<lambda>l. map (\<lambda>item. (fst item, l))
                         (filter (\<lambda>item. l \<in> set (snd item) \<and> indicator_map (fst item) \<noteq> None) items))
                 interval_list)"

fun run_pairs ::
  "(bool \<Rightarrow> string \<Rightarrow> 'v conv) \<Rightarrow> (string \<Rightarrow> interval \<Rightarrow> response)
   \<Rightarrow> (string \<times> interval) list \<Rightarrow> 'v run_state \<Rightarrow> 'v run_state \<times> error option" where
  "run_pairs convert fetch [] s = (s, None)"
| "run_pairs convert fetch ((indicator, l) # rest) s =
     (case indicator_map indicator of
        None \<Rightarrow> run_pairs convert fetch rest s
      | Some column_suffix \<Rightarrow>
          (let column_name = prefix_map l @ column_suffix in
           case ingest_pair convert (rs_tables s l) column_name (fetch indicator l) of
             Inl err \<Rightarrow> (s, Some err)
           | Inr res \<Rightarrow>
               run_pairs convert fetch rest
                 (s\<lparr>rs_tables := (rs_tables s)(l := pr_table res),
                    rs_available :=
                      (if pr_available res
                          \<and> (indicator, l, prev_date_of (rs_tables s l) column_name)
                              \<notin> set (rs_available s)
                       then rs_available s
                            @ [(indicator, l, prev_date_of (rs_tables s l) column_name)]
                       else rs_available s),
                    rs_inserted := rs_inserted s + length (pr_inserts res),
                    rs_log := rs_log s @ [((indicator, l), res)]\<rparr>)))"

definition process_economic_indicators ::
  "(bool \<Rightarrow> string \<Rightarrow> 'v conv) \<Rightarrow> (string \<Rightarrow> interval \<Rightarrow> response)
   \<Rightarrow> interval list \<Rightarrow> (string \<times> interval list) list \<Rightarrow> (interval \<Rightarrow> 'v ind_row list)
   \<Rightarrow> 'v run_state \<times> error option" where
  "process_economic_indicators convert fetch interval_list items tables =
     run_pairs convert fetch (pairs_of interval_list items)
       \<lparr>rs_tables = tables, rs_available = [], rs_inserted = 0, rs_log = []\<rparr>"

text \<open>
  The dates under which the loop can store a value, given \<^verbatim>\<open>prev_date\<close>: dates after it, and
  for the shifted weekly rate column the dates later than five days before it, other than
  \<^verbatim>\<open>prev_date\<close> itself.
\<close>

definition date_ok :: "string \<Rightarrow> day \<Rightarrow> day \<Rightarrow> bool" where
  "date_ok column_name prev_date d =
     (if column_name = ''WEFFRP_value'' then prev_date - 5 < d \<and> d \<noteq> prev_date
      else prev_date < d)"

text \<open>
  How \<^verbatim>\<open>resolve_EIE\<close> calls the function: an exception is caught and printed, the two
  reported results are reset, and the run goes on to gap filling and event processing
  with the tables as they are.
\<close>

definition resolve_EIE_indicators ::
  "(bool \<Rightarrow> string \<Rightarrow> 'v conv) \<Rightarrow> (string \<Rightarrow> interval \<Rightarrow> response)
   \<Rightarrow> interval list \<Rightarrow> (string \<times> interval list) list \<Rightarrow> (interval \<Rightarrow> 'v ind_row list)
   \<Rightarrow> (interval \<Rightarrow> 'v ind_row list) \<times> (string \<times> interval \<times> day) list \<times> nat" where
  "resolve_EIE_indicators convert fetch interval_list items tables =
     (case process_economic_indicators convert fetch interval_list items tables of
        (s, None) \<Rightarrow> (rs_tables s, rs_available s, rs_inserted s)
      | (s, Some err) \<Rightarrow> (rs_tables s, [], 0))"

text \<open>
  Two conditions used to describe a second run. For a watermark, a column and a response,
  \<open>all_dropped\<close>: the response is a payload whose dates can all be read, and the loop over
  the entries newer than the watermark drops every one of them. For the tables of a run,
  \<open>settled\<close>: the pair is not in \<^verbatim>\<open>indicator_map\<close>, or its column is the shifted weekly rate
  column, or the response for it is all dropped at the column's present watermark.
\<close>

definition all_dropped ::
  "(bool \<Rightarrow> string \<Rightarrow> 'v conv) \<Rightarrow> string \<Rightarrow> day \<Rightarrow> response \<Rightarrow> bool" where
  "all_dropped convert column_name prev_date data =
     (case data of
        Raises \<Rightarrow> False
      | Payload data_list \<Rightarrow>
          (case filter_new prev_date data_list of
             Inl err \<Rightarrow> False
           | Inr kept \<Rightarrow>
               list_all (\<lambda>x. case entry_outcome convert column_name prev_date x of
                                Drop \<Rightarrow> True | Raise err \<Rightarrow> False | Store date v \<Rightarrow> False)
                        kept))"

definition settled ::
  "(bool \<Rightarrow> string \<Rightarrow> 'v conv) \<Rightarrow> (string \<Rightarrow> interval \<Rightarrow> response)
   \<Rightarrow> (interval \<Rightarrow> 'v ind_row list) \<Rightarrow> string \<times> interval \<Rightarrow> bool" where
  "settled convert fetch tables p =
     (case indicator_map (fst p) of
        None \<Rightarrow> True
      | Some column_suffix \<Rightarrow>
          prefix_map (snd p) @ column_suffix = ''WEFFRP_value''
          \<or> all_dropped convert (prefix_map (snd p) @ column_suffix)
               (prev_date_of (tables (snd p)) (prefix_map (snd p) @ column_suffix))
               (fetch (fst p) (snd p)))"

section \<open>Verified properties\<close>

subsection \<open>Gap filler\<close>

lemma executemany_map: "executemany us tbl = map (filled_cell us) tbl"
proof (induction us arbitrary: tbl)
  case Nil
  have "filled_cell [] = (\<lambda>r::'a cell. r)"
    by (rule ext) (simp add: filled_cell_def split: option.splits)
  then show ?case by (simp add: executemany_def)
next
  case (Cons u us)
  have "executemany (u # us) tbl = executemany us (map (update_null_cell u) tbl)"
    by (simp add: executemany_def)
  also have "\<dots> = map (filled_cell us) (map (update_null_cell u) tbl)"
    by (rule Cons.IH)
  also have "\<dots> = map (filled_cell (u # us)) tbl"
    by (auto simp: filled_cell_def update_null_cell_def split: option.splits)
  finally show ?case .
qed

lemma fst_filled_cell [simp]: "fst (filled_cell us r) = fst r"
  by (simp add: filled_cell_def split: option.splits)

lemma insort_key_map_fst:
  assumes "\<And>r. fst (g r) = fst r"
  shows "insort_key fst (g x) (map g xs) = map g (insort_key fst x xs)"
  by (induction xs) (simp_all add: assms)

lemma sort_key_map_fst:
  assumes "\<And>r. fst (g r) = fst r"
  shows "sort_key fst (map g xs) = map g (sort_key fst xs)"
  by (induction xs) (simp_all add: insort_key_map_fst [OF assms])

lemma collect_updates_append:
  "collect_updates v (xs @ ys) = collect_updates v xs @ collect_updates (last_known v xs) ys"
  by (induction v xs rule: collect_updates.induct) simp_all

lemma collect_updates_dates: "snd ` set (collect_updates v xs) \<subseteq> fst ` set xs"
  by (induction v xs rule: collect_updates.induct) auto

lemma find_append_skip:
  "\<forall>u \<in> set us. \<not> P u \<Longrightarrow> find P (us @ zs) = find P zs"
  by (induction us) simp_all

lemma find_collect_updates:
  assumes "d \<notin> fst ` set xs"
  shows "find (\<lambda>u. snd u = d) (collect_updates v (xs @ (d, None) # ys)) = Some (last_known v xs, d)"
proof -
  have "\<forall>u \<in> set (collect_updates v xs). \<not> snd u = d"
    using assms collect_updates_dates [of v xs] by auto
  then show ?thesis
    by (simp add: collect_updates_append find_append_skip)
qed

lemma last_known_all_null: "\<forall>r \<in> set xs. snd r = None \<Longrightarrow> last_known v xs = v"
  by (induction v xs rule: last_known.induct) simp_all

lemma last_known_append: "last_known v (xs @ ys) = last_known (last_known v xs) ys"
  by (induction v xs rule: last_known.induct) simp_all

lemma first_valid_value_split:
  "\<forall>r \<in> set xs. snd r = None \<Longrightarrow> first_valid_value (xs @ (d, Some w) # ys) = Some w"
  by (simp add: first_valid_value_def)

lemma first_valid_value_None: "first_valid_value xs = None \<longleftrightarrow> (\<forall>r \<in> set xs. snd r = None)"
  by (induction xs) (auto simp: first_valid_value_def)

lemma collect_updates_covers:
  "(d, None) \<in> set xs \<Longrightarrow> find (\<lambda>u. snd u = d) (collect_updates v xs) \<noteq> None"
  by (induction v xs rule: collect_updates.induct) auto

lemma map_filled_cell_Nil: "map (filled_cell []) tbl = tbl"
  by (induction tbl) (simp_all add: filled_cell_def split: option.splits)

lemma fill_as_map:
  "forward_backward_fill_indicator tbl = map (filled_cell (fill_updates tbl)) tbl"
  by (simp add: forward_backward_fill_indicator_def fill_updates_def Let_def executemany_map
      map_filled_cell_Nil first_valid_value_def split: option.splits)

lemma select_ordered_fill:
  "select_ordered (forward_backward_fill_indicator tbl) =
     map (filled_cell (fill_updates tbl)) (select_ordered tbl)"
  unfolding fill_as_map select_ordered_def
  by (rule sort_key_map_fst) simp

lemma fill_dates:
  "map fst (select_ordered (forward_backward_fill_indicator tbl)) = map fst (select_ordered tbl)"
  by (simp add: select_ordered_fill)

lemma fill_keeps_values:
  assumes "i < length (select_ordered tbl)" and "snd (select_ordered tbl ! i) \<noteq> None"
  shows "select_ordered (forward_backward_fill_indicator tbl) ! i = select_ordered tbl ! i"
  using assms by (auto simp: select_ordered_fill filled_cell_def split: option.splits)

lemma fill_no_null:
  assumes "\<exists>r \<in> set tbl. snd r \<noteq> None"
  shows "\<forall>r \<in> set (forward_backward_fill_indicator tbl). snd r \<noteq> None"
proof
  fix r assume "r \<in> set (forward_backward_fill_indicator tbl)"
  then obtain r0 where r0: "r0 \<in> set tbl" and r: "r = filled_cell (fill_updates tbl) r0"
    by (auto simp: fill_as_map)
  from assms have "first_valid_value (select_ordered tbl) \<noteq> None"
    by (simp add: first_valid_value_None select_ordered_def)
  then obtain fv where fv: "first_valid_value (select_ordered tbl) = Some fv" by auto
  show "snd r \<noteq> None"
  proof (cases "snd r0")
    case None
    then have "(fst r0, None) \<in> set (select_ordered tbl)"
      using r0 by (simp add: select_ordered_def) (metis prod.collapse)
    then have "find (\<lambda>u. snd u = fst r0) (collect_updates fv (select_ordered tbl)) \<noteq> None"
      by (rule collect_updates_covers)
    then show ?thesis
      using None by (auto simp: r filled_cell_def fill_updates_def fv)
  next
    case (Some v)
    then show ?thesis by (simp add: r filled_cell_def)
  qed
qed

lemma fill_noop:
  assumes "\<forall>r \<in> set tbl. snd r = None"
  shows "forward_backward_fill_indicator tbl = tbl"
proof -
  have "first_valid_value (select_ordered tbl) = None"
    using assms by (simp add: first_valid_value_None select_ordered_def)
  then show ?thesis
    by (simp add: forward_backward_fill_indicator_def Let_def)
qed

lemma fill_null_cell:
  assumes dist: "distinct (map fst tbl)"
    and i: "i < length (select_ordered tbl)"
    and null: "snd (select_ordered tbl ! i) = None"
    and fv: "first_valid_value (select_ordered tbl) = Some fv"
  shows "snd (select_ordered (forward_backward_fill_indicator tbl) ! i)
           = Some (last_known fv (take i (select_ordered tbl)))"
proof -
  let ?R = "select_ordered tbl"
  obtain d where Ri: "?R ! i = (d, None)"
    using null by (metis prod.collapse)
  have split: "?R = take i ?R @ (d, None) # drop (Suc i) ?R"
    using i Ri by (metis id_take_nth_drop)
  have "distinct (map fst ?R)"
    using dist by (simp add: select_ordered_def distinct_map)
  then have "distinct (map fst (take i ?R @ (d, None) # drop (Suc i) ?R))"
    using split by simp
  then have notin: "d \<notin> fst ` set (take i ?R)"
    by auto
  have "find (\<lambda>u. snd u = d) (collect_updates fv ?R) = Some (last_known fv (take i ?R), d)"
    using find_collect_updates [OF notin, of fv "drop (Suc i) ?R"] split by simp
  then show ?thesis
    using i Ri by (simp add: select_ordered_fill filled_cell_def fill_updates_def fv)
qed

lemma fill_backward:
  assumes dist: "distinct (map fst tbl)"
    and j: "j < length (select_ordered tbl)" and ij: "i < j"
    and before: "\<forall>k<j. snd (select_ordered tbl ! k) = None"
    and valid: "snd (select_ordered tbl ! j) \<noteq> None"
  shows "snd (select_ordered (forward_backward_fill_indicator tbl) ! i) = snd (select_ordered tbl ! j)"
proof -
  let ?R = "select_ordered tbl"
  obtain dj w where Rj: "?R ! j = (dj, Some w)"
    using valid by (metis option.exhaust prod.collapse)
  have nulls: "\<forall>r \<in> set (take j ?R). snd r = None"
  proof
    fix r assume "r \<in> set (take j ?R)"
    then obtain k where "k < j" and "r = ?R ! k"
      using j by (auto simp: in_set_conv_nth)
    then show "snd r = None" using before by simp
  qed
  have "?R = take j ?R @ (dj, Some w) # drop (Suc j) ?R"
    using j Rj by (metis id_take_nth_drop)
  then have fv: "first_valid_value ?R = Some w"
    using first_valid_value_split [OF nulls, of dj w "drop (Suc j) ?R"] by simp
  have "set (take i ?R) \<subseteq> set (take j ?R)"
    using ij by (simp add: set_take_subset_set_take)
  then have "last_known w (take i ?R) = w"
    using nulls by (intro last_known_all_null) auto
  moreover have "snd (?R ! i) = None" using before ij by simp
  ultimately show ?thesis
    using fill_null_cell [OF dist _ _ fv, of i] ij j by (simp add: Rj)
qed

lemma fill_forward:
  assumes dist: "distinct (map fst tbl)"
    and i: "i < length (select_ordered tbl)" and ji: "j < i"
    and valid: "snd (select_ordered tbl ! j) \<noteq> None"
    and between: "\<forall>k. j < k \<and> k \<le> i \<longrightarrow> snd (select_ordered tbl ! k) = None"
  shows "snd (select_ordered (forward_backward_fill_indicator tbl) ! i) = snd (select_ordered tbl ! j)"
proof -
  let ?R = "select_ordered tbl"
  obtain dj w where Rj: "?R ! j = (dj, Some w)"
    using valid by (metis option.exhaust prod.collapse)
  have "?R ! j \<in> set ?R" using i ji by simp
  then have "first_valid_value ?R \<noteq> None"
    using valid by (auto simp: first_valid_value_None)
  then obtain fv where fv: "first_valid_value ?R = Some fv" by auto
  let ?T = "take i ?R"
  have jT: "j < length ?T" using i ji by simp
  have T: "?T = take j ?T @ (dj, Some w) # drop (Suc j) ?T"
    using jT Rj ji by (metis id_take_nth_drop nth_take)
  have "\<forall>r \<in> set (drop (Suc j) ?T). snd r = None"
  proof
    fix r assume "r \<in> set (drop (Suc j) ?T)"
    then obtain k where k: "k < length (drop (Suc j) ?T)" and r: "r = drop (Suc j) ?T ! k"
      by (auto simp: in_set_conv_nth)
    have "Suc j + k < i" using k i by simp
    then have "r = ?R ! (Suc j + k)" using r k i by simp
    then show "snd r = None" using between \<open>Suc j + k < i\<close> by simp
  qed
  then have "last_known w (drop (Suc j) ?T) = w"
    by (rule last_known_all_null)
  then have "last_known fv ?T = w"
    by (subst T) (simp add: last_known_append)
  moreover have "snd (?R ! i) = None" using between ji by simp
  ultimately show ?thesis
    using fill_null_cell [OF dist i _ fv] by (simp add: Rj)
qed

text \<open>
  Claim C5 (gap-fill completeness). Read the rows in date order before and after the fill.
  The fill keeps every row and its date, and leaves every cell that held a value as it
  was, so it writes to originally-null cells only. If the column holds a value at all,
  no cell of the column is null afterwards; if it holds none (or the table is empty) the
  table is returned unchanged. With one row per date (the data model's invariant): every
  null cell before the first value receives that first value, and every null cell after a
  value receives the last value that precedes it.
\<close>

theorem gap_fill_completeness:
  fixes tbl :: "'v cell list"
  shows
    "map fst (select_ordered (forward_backward_fill_indicator tbl)) = map fst (select_ordered tbl)
     \<and> (\<forall>i < length (select_ordered tbl). snd (select_ordered tbl ! i) \<noteq> None \<longrightarrow>
           select_ordered (forward_backward_fill_indicator tbl) ! i = select_ordered tbl ! i)
     \<and> ((\<exists>r \<in> set tbl. snd r \<noteq> None) \<longrightarrow>
           (\<forall>r \<in> set (forward_backward_fill_indicator tbl). snd r \<noteq> None))
     \<and> ((\<forall>r \<in> set tbl. snd r = None) \<longrightarrow> forward_backward_fill_indicator tbl = tbl)
     \<and> (distinct (map fst tbl) \<longrightarrow>
           (\<forall>i j. i < j \<and> j < length (select_ordered tbl)
                  \<and> (\<forall>k<j. snd (select_ordered tbl ! k) = None)
                  \<and> snd (select_ordered tbl ! j) \<noteq> None \<longrightarrow>
                  snd (select_ordered (forward_backward_fill_indicator tbl) ! i)
                    = snd (select_ordered tbl ! j))
         \<and> (\<forall>i j. j < i \<and> i < length (select_ordered tbl)
                  \<and> snd (select_ordered tbl ! j) \<noteq> None
                  \<and> (\<forall>k. j < k \<and> k \<le> i \<longrightarrow> snd (select_ordered tbl ! k) = None) \<longrightarrow>
                  snd (select_ordered (forward_backward_fill_indicator tbl) ! i)
                    = snd (select_ordered tbl ! j)))"
proof (intro conjI impI allI)
  show "map fst (select_ordered (forward_backward_fill_indicator tbl)) = map fst (select_ordered tbl)"
    by (rule fill_dates)
next
  fix i
  assume "i < length (select_ordered tbl)" and "snd (select_ordered tbl ! i) \<noteq> None"
  then show "select_ordered (forward_backward_fill_indicator tbl) ! i = select_ordered tbl ! i"
    by (rule fill_keeps_values)
next
  assume "\<exists>r \<in> set tbl. snd r \<noteq> None"
  then show "\<forall>r \<in> set (forward_backward_fill_indicator tbl). snd r \<noteq> None"
    by (rule fill_no_null)
next
  assume "\<forall>r \<in> set tbl. snd r = None"
  then show "forward_backward_fill_indicator tbl = tbl"
    by (rule fill_noop)
next
  fix i j
  assume "distinct (map fst tbl)"
    and "i < j \<and> j < length (select_ordered tbl)
         \<and> (\<forall>k<j. snd (select_ordered tbl ! k) = None)
         \<and> snd (select_ordered tbl ! j) \<noteq> None"
  then show "snd (select_ordered (forward_backward_fill_indicator tbl) ! i)
               = snd (select_ordered tbl ! j)"
    using fill_backward [of tbl j i] by blast
next
  fix i j
  assume "distinct (map fst tbl)"
    and "j < i \<and> i < length (select_ordered tbl)
         \<and> snd (select_ordered tbl ! j) \<noteq> None
         \<and> (\<forall>k. j < k \<and> k \<le> i \<longrightarrow> snd (select_ordered tbl ! k) = None)"
  then show "snd (select_ordered (forward_backward_fill_indicator tbl) ! i)
               = snd (select_ordered tbl ! j)"
    using fill_forward [of tbl i j] by blast
qed

text \<open>
  The theorem at a table stored out of date order, with two nulls before the first value
  and two after a value: the dates are distinct, the column holds values, and the fill
  gives the first value 5 to the leading rows and carries 5 and 7 forward.
\<close>

theorem gap_fill_completeness_witness:
  "distinct (map fst ([(3, None), (1, None), (2, Some 5), (5, Some 7), (6, None), (4, None)] :: nat cell list))
   \<and> (\<exists>r \<in> set ([(3, None), (1, None), (2, Some 5), (5, Some 7), (6, None), (4, None)] :: nat cell list).
         snd r \<noteq> None)
   \<and> select_ordered (forward_backward_fill_indicator
        ([(3, None), (1, None), (2, Some 5), (5, Some 7), (6, None), (4, None)] :: nat cell list))
      = [(1, Some 5), (2, Some 5), (3, Some 5), (4, Some 5), (5, Some 7), (6, Some 7)]"
proof -
  let ?t = "[(3, None), (1, None), (2, Some 5), (5, Some 7), (6, None), (4, None)] :: nat cell list"
  have filled: "forward_backward_fill_indicator ?t
      = [(3, Some 5), (1, Some 5), (2, Some 5), (5, Some 7), (6, Some 7), (4, Some 5)]"
    by (simp add: forward_backward_fill_indicator_def select_ordered_def first_valid_value_def
        executemany_def update_null_cell_def)
  show ?thesis
    using gap_fill_completeness [of ?t] by (simp add: filled select_ordered_def)
qed

subsection \<open>Split-ratio formatting\<close>

lemma round_half_even_near: "\<bar>of_int (round_half_even x) - x\<bar> \<le> 1 / 2"
proof -
  have "of_int \<lfloor>x\<rfloor> \<le> x" and "x < of_int \<lfloor>x\<rfloor> + 1"
    by linarith+
  then show ?thesis
    by (auto simp: round_half_even_def Let_def abs_le_iff)
qed

lemma round_half_even_nonneg: "0 \<le> x \<Longrightarrow> 0 \<le> round_half_even x"
  by (auto simp: round_half_even_def Let_def)

lemma round_half_even_pos: "1 \<le> x \<Longrightarrow> 1 \<le> round_half_even x"
proof -
  assume "1 \<le> x"
  then have "1 \<le> \<lfloor>x\<rfloor>" by linarith
  then show ?thesis by (auto simp: round_half_even_def Let_def)
qed

lemma round_prec_nonneg: "0 \<le> x \<Longrightarrow> 0 \<le> round_prec x"
  by (simp add: round_prec_def Let_def round_half_even_nonneg)

lemma quantize_Some:
  "0 \<le> x \<Longrightarrow> round_half_even x < 10 ^ prec \<Longrightarrow> quantize x = Some (round_half_even x)"
  using round_half_even_nonneg [of x] by (simp add: quantize_def Let_def)

lemma split_ratio_forward:
  assumes "1 < dec_value c e" and "round_half_even (dec_value c e) < 10 ^ 28"
  shows "compute_split_ratio_str (Parsed (Finite c e))
           = Some (str_int (round_half_even (dec_value c e)) @ ''-for-1'')"
proof -
  have "quantize (dec_value c e) = Some (round_half_even (dec_value c e))"
    using assms by (intro quantize_Some) (simp_all add: prec_def)
  then show ?thesis
    using assms by (simp add: compute_split_ratio_str_def Let_def)
qed

lemma split_ratio_reverse:
  assumes "0 < dec_value c e" and "dec_value c e < 1"
    and "round_half_even (round_prec (1 / dec_value c e)) < 10 ^ 28"
  shows "compute_split_ratio_str (Parsed (Finite c e))
           = Some (''Reverse '' @ str_int (round_half_even (round_prec (1 / dec_value c e))) @ ''-for-1'')"
proof -
  have "0 \<le> round_prec (1 / dec_value c e)"
    using assms by (intro round_prec_nonneg) simp
  then have "quantize (round_prec (1 / dec_value c e))
               = Some (round_half_even (round_prec (1 / dec_value c e)))"
    using assms by (intro quantize_Some) (simp_all add: prec_def)
  then show ?thesis
    using assms by (simp add: compute_split_ratio_str_def Let_def)
qed

lemma split_ratio_two: "compute_split_ratio_str (Parsed (Finite 20 (- 1))) = Some ''2-for-1''"
  by code_simp

lemma split_ratio_half: "compute_split_ratio_str (Parsed (Finite 5 (- 1))) = Some ''Reverse 2-for-1''"
  by code_simp

text \<open>
  The reciprocal is rounded twice, to 28 significant digits by the division and to an
  integer by the quantization. For the factor 0.3999999999999999999999999999999999 the
  reciprocal lies just above 2.5 and its nearest integer is 3, but the function prints 2.
\<close>

lemma split_ratio_double_rounding:
  "round_half_even (1 / dec_value 3999999999999999999999999999999999 (- 34)) = 3
   \<and> compute_split_ratio_str (Parsed (Finite 3999999999999999999999999999999999 (- 34)))
       = Some ''Reverse 2-for-1''"
  by code_simp

text \<open>
  Claim C9, as stated, at the factor \<^verbatim>\<open>1E+28\<close>: it is greater than 1, yet its integer has 29
  digits, the quantization raises and the function returns \<open>None\<close>, not \<^verbatim>\<open>"N-for-1"\<close>.
\<close>

theorem split_ratio_large_factor_counterexample:
  "1 < dec_value 1 28 \<and> compute_split_ratio_str (Parsed (Finite 1 28)) = None"
  by code_simp

text \<open>
  Claim C9 (split-ratio formatting), amended. Factor 2.0 gives \<^verbatim>\<open>"2-for-1"\<close> and factor 0.5
  gives \<^verbatim>\<open>"Reverse 2-for-1"\<close>; a missing, empty or unparseable factor and a factor equal to 1
  give \<open>None\<close>. A finite factor above 1 whose half-even rounding \<open>N\<close> has at most 28 digits
  gives \<open>N\<close> followed by \<^verbatim>\<open>"-for-1"\<close>. A positive factor below 1 gives \<^verbatim>\<open>"Reverse N-for-1"\<close>,
  where \<open>N\<close> is the reciprocal computed to 28 significant digits and then rounded half-even
  to an integer, provided \<open>N\<close> has at most 28 digits.
\<close>

theorem split_ratio_formatting:
  "compute_split_ratio_str (Parsed (Finite 20 (- 1))) = Some ''2-for-1''
   \<and> compute_split_ratio_str (Parsed (Finite 5 (- 1))) = Some ''Reverse 2-for-1''
   \<and> compute_split_ratio_str Missing = None
   \<and> compute_split_ratio_str Blank = None
   \<and> compute_split_ratio_str Unparseable = None
   \<and> (dec_value c e = 1 \<longrightarrow> compute_split_ratio_str (Parsed (Finite c e)) = None)
   \<and> (1 < dec_value c e \<and> round_half_even (dec_value c e) < 10 ^ 28 \<longrightarrow>
        compute_split_ratio_str (Parsed (Finite c e))
          = Some (str_int (round_half_even (dec_value c e)) @ ''-for-1''))
   \<and> (0 < dec_value c e \<and> dec_value c e < 1
        \<and> round_half_even (round_prec (1 / dec_value c e)) < 10 ^ 28 \<longrightarrow>
        compute_split_ratio_str (Parsed (Finite c e))
          = Some (''Reverse '' @ str_int (round_half_even (round_prec (1 / dec_value c e)))
                  @ ''-for-1''))"
proof (intro conjI impI)
  show "compute_split_ratio_str (Parsed (Finite 20 (- 1))) = Some ''2-for-1''"
    by (rule split_ratio_two)
  show "compute_split_ratio_str (Parsed (Finite 5 (- 1))) = Some ''Reverse 2-for-1''"
    by (rule split_ratio_half)
  show "compute_split_ratio_str Missing = None"
    and "compute_split_ratio_str Blank = None"
    and "compute_split_ratio_str Unparseable = None"
    by (simp_all add: compute_split_ratio_str_def)
next
  assume "dec_value c e = 1"
  then show "compute_split_ratio_str (Parsed (Finite c e)) = None"
    by (simp add: compute_split_ratio_str_def)
next
  assume "1 < dec_value c e \<and> round_half_even (dec_value c e) < 10 ^ 28"
  then show "compute_split_ratio_str (Parsed (Finite c e))
               = Some (str_int (round_half_even (dec_value c e)) @ ''-for-1'')"
    by (simp add: split_ratio_forward)
next
  assume "0 < dec_value c e \<and> dec_value c e < 1
          \<and> round_half_even (round_prec (1 / dec_value c e)) < 10 ^ 28"
  then show "compute_split_ratio_str (Parsed (Finite c e))
               = Some (''Reverse '' @ str_int (round_half_even (round_prec (1 / dec_value c e)))
                       @ ''-for-1'')"
    by (simp add: split_ratio_reverse)
qed

text \<open>
  The theorem at the factors 1.00, 3.5 and 0.25, which meet the three hypotheses in turn:
  \<open>None\<close>, \<^verbatim>\<open>"4-for-1"\<close> (3.5 rounds to the even 4) and \<^verbatim>\<open>"Reverse 4-for-1"\<close>.
\<close>

theorem split_ratio_formatting_witness:
  "dec_value 100 (- 2) = 1
   \<and> compute_split_ratio_str (Parsed (Finite 100 (- 2))) = None
   \<and> 1 < dec_value 35 (- 1) \<and> round_half_even (dec_value 35 (- 1)) = 4
   \<and> compute_split_ratio_str (Parsed (Finite 35 (- 1))) = Some ''4-for-1''
   \<and> 0 < dec_value 25 (- 2) \<and> dec_value 25 (- 2) < 1
   \<and> round_half_even (round_prec (1 / dec_value 25 (- 2))) = 4
   \<and> compute_split_ratio_str (Parsed (Finite 25 (- 2))) = Some ''Reverse 4-for-1''"
proof -
  have v1: "dec_value 100 (- 2) = 1"
    and v2: "1 < dec_value 35 (- 1)" "round_half_even (dec_value 35 (- 1)) = 4"
    and v3: "0 < dec_value 25 (- 2)" "dec_value 25 (- 2) < 1"
      "round_half_even (round_prec (1 / dec_value 25 (- 2))) = 4"
    by code_simp+
  have s: "str_int 4 = ''4''"
    by code_simp
  show ?thesis
    using split_ratio_formatting [of 100 "- 2"] split_ratio_formatting [of 35 "- 1"]
      split_ratio_formatting [of 25 "- 2"]
    by (simp add: v1 v2 v3 s)
qed

subsection \<open>The pre-insertion sort\<close>

lemma digit_char_code: "k < 10 \<Longrightarrow> of_char (''0123456789'' ! k) = (48 + k :: nat)"
proof -
  assume "k < 10"
  then have "k \<in> {0, 1, 2, 3, 4, 5, 6, 7, 8, 9}" by auto
  then show ?thesis by auto
qed

lemma digit_char_less:
  assumes "j < 10" and "k < 10"
  shows "''0123456789'' ! j < ''0123456789'' ! k \<longleftrightarrow> j < k"
    and "''0123456789'' ! j = ''0123456789'' ! k \<longleftrightarrow> j = k"
proof -
  show "''0123456789'' ! j < ''0123456789'' ! k \<longleftrightarrow> j < k"
    using assms by (simp only: less_char_def digit_char_code) simp
  have "(of_char (''0123456789'' ! j) :: nat) = of_char (''0123456789'' ! k) \<longleftrightarrow> j = k"
    using assms by (simp only: digit_char_code) simp
  then show "''0123456789'' ! j = ''0123456789'' ! k \<longleftrightarrow> j = k"
    by (simp only: of_char_eq_iff)
qed

lemma lex_append:
  fixes a b x y :: string
  assumes "length a = length b"
  shows "a @ x < b @ y \<longleftrightarrow> a < b \<or> (a = b \<and> x < y)"
  using assms by (induction a b rule: list_induct2) auto

lemma digits_small: "n < 10 \<Longrightarrow> digits n = [''0123456789'' ! n]"
  by simp

lemma digits_step: "10 \<le> n \<Longrightarrow> digits n = digits (n div 10) @ [''0123456789'' ! (n mod 10)]"
  by simp

lemma div_mod_10:
  fixes a b :: nat
  shows "a < b \<longleftrightarrow> a div 10 < b div 10 \<or> (a div 10 = b div 10 \<and> a mod 10 < b mod 10)"
    and "a = b \<longleftrightarrow> a div 10 = b div 10 \<and> a mod 10 = b mod 10"
proof -
  define qa ra qb rb where "qa = a div 10" and "ra = a mod 10" and "qb = b div 10" and "rb = b mod 10"
  have a: "a = 10 * qa + ra" "ra < 10" and b: "b = 10 * qb + rb" "rb < 10"
    by (simp_all add: qa_def ra_def qb_def rb_def)
  have "a < b \<longleftrightarrow> qa < qb \<or> (qa = qb \<and> ra < rb)"
    using a b by (cases qa qb rule: linorder_cases) simp_all
  then show "a < b \<longleftrightarrow> a div 10 < b div 10 \<or> (a div 10 = b div 10 \<and> a mod 10 < b mod 10)"
    by (simp only: qa_def ra_def qb_def rb_def)
  have "a = b \<longleftrightarrow> qa = qb \<and> ra = rb"
    using a b by (cases qa qb rule: linorder_cases) simp_all
  then show "a = b \<longleftrightarrow> a div 10 = b div 10 \<and> a mod 10 = b mod 10"
    by (simp only: qa_def ra_def qb_def rb_def)
qed

text \<open>Numbers with equally many digits compare as their decimal numerals.\<close>

lemma digits_order:
  "10 ^ k \<le> a \<Longrightarrow> a < 10 ^ Suc k \<Longrightarrow> 10 ^ k \<le> b \<Longrightarrow> b < 10 ^ Suc k \<Longrightarrow>
     length (digits a) = Suc k \<and> (digits a < digits b \<longleftrightarrow> a < b) \<and> (digits a = digits b \<longleftrightarrow> a = b)"
proof (induction k arbitrary: a b)
  case 0
  then have a: "a < 10" and b: "b < 10" by simp_all
  show ?case
    using digit_char_less [OF a b] by (simp only: digits_small [OF a] digits_small [OF b]) simp
next
  case (Suc k)
  define c :: nat where "c = 10 ^ k"
  have c: "1 \<le> c" by (simp add: c_def)
  have bounds: "10 * c \<le> a" "a < 10 * (10 * c)" "10 * c \<le> b" "b < 10 * (10 * c)"
    using Suc.prems by (simp_all add: c_def)
  have a10: "10 \<le> a" and b10: "10 \<le> b"
    using bounds c by linarith+
  have "c \<le> a div 10" "a div 10 < 10 * c" "c \<le> b div 10" "b div 10 < 10 * c"
    using bounds by linarith+
  then have a': "10 ^ k \<le> a div 10" "a div 10 < 10 ^ Suc k"
    and b': "10 ^ k \<le> b div 10" "b div 10 < 10 ^ Suc k"
    by (simp_all add: c_def)
  note IH = Suc.IH [OF a' b']
  have IHb: "length (digits (b div 10)) = Suc k"
    using Suc.IH [OF b' b'] by simp
  have len: "length (digits (a div 10)) = length (digits (b div 10))"
    using IH IHb by simp
  have ma: "a mod 10 < 10" and mb: "b mod 10 < 10" by simp_all
  have less: "a < b \<longleftrightarrow> a div 10 < b div 10 \<or> (a div 10 = b div 10 \<and> a mod 10 < b mod 10)"
    by (rule div_mod_10(1))
  have eq: "a = b \<longleftrightarrow> a div 10 = b div 10 \<and> a mod 10 = b mod 10"
    by (rule div_mod_10(2))
  have 1: "length (digits a) = Suc (Suc k)"
    using IH by (simp only: digits_step [OF a10]) simp
  have 2: "digits a < digits b \<longleftrightarrow> a < b"
    unfolding digits_step [OF a10] digits_step [OF b10] lex_append [OF len] less
    using IH digit_char_less(1) [OF ma mb] by simp
  have 3: "digits a = digits b \<longleftrightarrow> a = b"
    unfolding digits_step [OF a10] digits_step [OF b10] eq
    using IH digit_char_less(2) [OF ma mb] by simp
  show ?case using 1 2 3 by blast
qed

lemma pad2_digits:
  assumes "n < 100"
  shows "pad2 n = [''0123456789'' ! (n div 10), ''0123456789'' ! (n mod 10)]"
proof (cases "n < 10")
  case True
  then show ?thesis by (simp add: pad2_def)
next
  case False
  then have n: "10 \<le> n" by simp
  have "n div 10 < 10" using assms by simp
  then show ?thesis
    using False by (simp only: pad2_def digits_step [OF n] digits_small) simp
qed

lemma pad2_order:
  assumes "a < 100" and "b < 100"
  shows "length (pad2 a) = 2" and "pad2 a < pad2 b \<longleftrightarrow> a < b" and "pad2 a = pad2 b \<longleftrightarrow> a = b"
proof -
  have da: "a div 10 < 10" "a mod 10 < 10" and db: "b div 10 < 10" "b mod 10 < 10"
    using assms by simp_all
  have less: "a < b \<longleftrightarrow> a div 10 < b div 10 \<or> (a div 10 = b div 10 \<and> a mod 10 < b mod 10)"
    by (rule div_mod_10(1))
  have eq: "a = b \<longleftrightarrow> a div 10 = b div 10 \<and> a mod 10 = b mod 10"
    by (rule div_mod_10(2))
  show "length (pad2 a) = 2" using assms by (simp add: pad2_digits)
  show "pad2 a < pad2 b \<longleftrightarrow> a < b"
    unfolding pad2_digits [OF assms(1)] pad2_digits [OF assms(2)] less
    using digit_char_less [OF da(1) db(1)] digit_char_less [OF da(2) db(2)] by simp
  show "pad2 a = pad2 b \<longleftrightarrow> a = b"
    unfolding pad2_digits [OF assms(1)] pad2_digits [OF assms(2)] eq
    using digit_char_less [OF da(1) db(1)] digit_char_less [OF da(2) db(2)] by simp
qed

text \<open>For years of four digits, the text of a date compares as the date does.\<close>

lemma strftime_order:
  assumes "valid_date d1" and "valid_date d2" and "1000 \<le> year d1" and "1000 \<le> year d2"
  shows "strftime d1 < strftime d2 \<longleftrightarrow> d1 < d2"
proof -
  obtain y1 m1 n1 where d1: "d1 = (y1, m1, n1)" by (cases d1)
  obtain y2 m2 n2 where d2: "d2 = (y2, m2, n2)" by (cases d2)
  have y: "10 ^ 3 \<le> y1" "y1 < 10 ^ Suc 3" "10 ^ 3 \<le> y2" "y2 < 10 ^ Suc 3"
    using assms by (simp_all add: d1 d2 valid_date_def year_def)
  have m: "m1 < 100" "m2 < 100" and n: "n1 < 100" "n2 < 100"
    using assms(1,2) by (simp_all add: d1 d2 valid_date_def month_def)
  note Y = digits_order [OF y]
  have leny: "length (digits y1) = length (digits y2)"
    using Y digits_order [OF y(3,4) y(3,4)] by (simp del: digits.simps)
  have lenm: "length (pad2 m1) = length (pad2 m2)"
    using pad2_order(1) [OF m(1) m(1)] pad2_order(1) [OF m(2) m(2)] by simp
  have "strftime d1 < strftime d2
      \<longleftrightarrow> digits y1 < digits y2
          \<or> (digits y1 = digits y2
              \<and> (pad2 m1 < pad2 m2 \<or> (pad2 m1 = pad2 m2 \<and> pad2 n1 < pad2 n2)))"
    unfolding strftime_def d1 d2 year_def month_def
    by (simp add: lex_append [OF leny] lex_append [OF lenm] del: digits.simps)
  also have "\<dots> \<longleftrightarrow> y1 < y2 \<or> (y1 = y2 \<and> (m1 < m2 \<or> (m1 = m2 \<and> n1 < n2)))"
    using Y pad2_order(2,3) [OF m] pad2_order(2) [OF n] by (simp del: digits.simps)
  also have "\<dots> \<longleftrightarrow> d1 < d2"
    unfolding d1 d2 by auto
  finally show ?thesis .
qed

text \<open>The text of every date but the last one is below the sentinel.\<close>

lemma digits_chars: "\<forall>c \<in> set (digits n). c \<le> CHR ''9''"
proof (induction n rule: digits.induct)
  case (1 n)
  have d: "''0123456789'' ! k \<le> CHR ''9''" if "k < 10" for k
    using that digit_char_code [OF that] by (simp add: less_eq_char_def)
  show ?case
  proof (cases "n < 10")
    case True
    then show ?thesis using d [of n] by (simp only: digits_small [OF True]) simp
  next
    case False
    then have n: "10 \<le> n" by simp
    show ?thesis
      using 1 False d [of "n mod 10"] by (simp add: digits_step [OF n] del: digits.simps)
  qed
qed

lemma length_digits: "n < 10 ^ Suc k \<Longrightarrow> length (digits n) \<le> Suc k"
proof (induction k arbitrary: n)
  case 0
  then show ?case by simp
next
  case (Suc k)
  show ?case
  proof (cases "n < 10")
    case True
    then show ?thesis by simp
  next
    case False
    then have n: "10 \<le> n" by simp
    have "n div 10 < 10 ^ Suc k"
      using Suc.prems by simp
    from Suc.IH [OF this] show ?thesis
      by (simp add: digits_step [OF n] del: digits.simps)
  qed
qed

lemma short_below_nines:
  fixes xs r s :: string
  assumes "\<forall>c \<in> set xs. c \<le> CHR ''9''" and "length xs < n"
  shows "xs @ CHR ''-'' # r < replicate n (CHR ''9'') @ s"
  using assms
proof (induction xs arbitrary: n)
  case Nil
  then obtain n' where "n = Suc n'" by (cases n) auto
  then show ?case by simp
next
  case (Cons c cs)
  then obtain n' where n: "n = Suc n'" by (cases n) auto
  have "cs @ CHR ''-'' # r < replicate n' (CHR ''9'') @ s"
    using Cons.prems n by (intro Cons.IH) simp_all
  moreover have "c < CHR ''9'' \<or> c = CHR ''9''"
    using Cons.prems(1) by auto
  ultimately show ?case
    unfolding n by auto
qed

lemma strftime_sentinel: "strftime (9999, 12, 31) = ''9999-12-31''"
  by (simp add: strftime_def year_def month_def pad2_def)

lemma valid_date_le_sentinel: "valid_date d \<Longrightarrow> d \<le> (9999, 12, 31)"
  by (cases d) (auto simp: valid_date_def year_def month_def)

lemma strftime_below_sentinel:
  assumes "valid_date d" and "d \<noteq> (9999, 12, 31)"
  shows "strftime d < ''9999-12-31''"
proof (cases "1000 \<le> year d")
  case True
  have "valid_date (9999, 12, 31)" "1000 \<le> year (9999, 12, 31)"
    by (simp_all add: valid_date_def year_def month_def)
  then have "strftime d < strftime (9999, 12, 31) \<longleftrightarrow> d < (9999, 12, 31)"
    using strftime_order [OF assms(1) _ True] by blast
  moreover have "d < (9999, 12, 31)"
    using valid_date_le_sentinel [OF assms(1)] assms(2) by simp
  ultimately show ?thesis
    by (simp only: strftime_sentinel)
next
  case False
  then have "year d < 10 ^ Suc 2" by simp
  then have "length (digits (year d)) < 4"
    using length_digits [of "year d" 2] by (simp del: digits.simps)
  then have "digits (year d) @ CHR ''-'' # (pad2 (month d) @ ''-'' @ pad2 (snd (snd d)))
      < replicate 4 (CHR ''9'') @ ''-12-31''"
    using digits_chars by (intro short_below_nines) (simp_all del: digits.simps)
  then show ?thesis
    by (simp add: strftime_def numeral_eq_Suc del: digits.simps)
qed


lemma sort_key_dated_before_undated:
  assumes "announcement_date a = Some d" and "valid_date d" and "d \<noteq> (9999, 12, 31)"
    and "announcement_date b = None"
  shows "event_sort_key a < event_sort_key b"
  using assms strftime_below_sentinel [OF assms(2,3)]
  by (simp add: event_sort_key_def Let_def)

lemma sort_key_by_date:
  assumes "announcement_date a = Some d1" and "announcement_date b = Some d2"
    and "valid_date d1" and "valid_date d2" and "1000 \<le> year d1" and "1000 \<le> year d2"
    and "d1 < d2"
  shows "event_sort_key a < event_sort_key b"
  using assms strftime_order [OF assms(3,4,5,6)]
  by (simp add: event_sort_key_def Let_def)

lemma sort_key_actual_before_expected:
  assumes "announcement_date a = announcement_date b"
    and "event_pk a = 2" and "details a = Some p" and "p \<noteq> []" and "dict_get p ''estimate'' = JNull"
    and "event_pk b = 2" and "details b = Some p'" and "dict_get p' ''estimate'' \<noteq> JNull"
  shows "event_sort_key a < event_sort_key b"
  using assms by (simp add: event_sort_key_def Let_def)

lemma sort_key_other_kinds:
  assumes "announcement_date a = announcement_date b" and "event_pk a \<noteq> 2" and "event_pk b \<noteq> 2"
  shows "event_sort_key a < event_sort_key b \<longleftrightarrow> event_pk a < event_pk b"
  using assms by (simp add: event_sort_key_def Let_def)

lemma sorted_positions:
  assumes "sorted (map f xs)" and "i < length xs" and "j < length xs" and "f (xs ! i) < f (xs ! j)"
  shows "i < j"
proof (rule ccontr)
  assume "\<not> i < j"
  then have "j \<le> i" by simp
  then have "map f xs ! j \<le> map f xs ! i"
    using assms(1,2) by (intro sorted_nth_mono) simp_all
  then show False using assms(2,3,4) by simp
qed

text \<open>
  Claim C7, as stated, at two inputs. First, a split dated 9999-12-31 and a calendar
  earnings event without an announcement date: both get the date component
  \<^verbatim>\<open>'9999-12-31'\<close>, the priority 2.2 is below 3, and the undated event is sorted before the
  dated one. Second, a dividend announced on 0999-01-01 and one announced on 2024-01-01:
  the keys are the texts \<^verbatim>\<open>'999-01-01'\<close> and \<^verbatim>\<open>'2024-01-01'\<close>, the second text is the smaller
  one, and the later event is sorted first.
\<close>

theorem sort_undated_counterexample:
  "sort_events
     [\<lparr>event_pk = 3, announcement_date = Some (9999, 12, 31), start_date = Some (9999, 12, 31),
       details = Some [(''split_ratio'', JStr ''2-for-1'')]\<rparr>,
      \<lparr>event_pk = 2, announcement_date = None, start_date = Some (2024, 5, 2),
       details = Some [(''quarter'', JStr ''Q2''), (''year'', JInt 2024), (''estimate'', JStr ''1.5'')]\<rparr>]
   = [\<lparr>event_pk = 2, announcement_date = None, start_date = Some (2024, 5, 2),
       details = Some [(''quarter'', JStr ''Q2''), (''year'', JInt 2024), (''estimate'', JStr ''1.5'')]\<rparr>,
      \<lparr>event_pk = 3, announcement_date = Some (9999, 12, 31), start_date = Some (9999, 12, 31),
       details = Some [(''split_ratio'', JStr ''2-for-1'')]\<rparr>]
   \<and> sort_events
     [\<lparr>event_pk = 1, announcement_date = Some (999, 1, 1), start_date = Some (999, 2, 1),
       details = Some [(''dividend_amount'', JStr ''0.25'')]\<rparr>,
      \<lparr>event_pk = 1, announcement_date = Some (2024, 1, 1), start_date = Some (2024, 2, 1),
       details = Some [(''dividend_amount'', JStr ''0.25'')]\<rparr>]
   = [\<lparr>event_pk = 1, announcement_date = Some (2024, 1, 1), start_date = Some (2024, 2, 1),
       details = Some [(''dividend_amount'', JStr ''0.25'')]\<rparr>,
      \<lparr>event_pk = 1, announcement_date = Some (999, 1, 1), start_date = Some (999, 2, 1),
       details = Some [(''dividend_amount'', JStr ''0.25'')]\<rparr>]"
  by (simp add: sort_events_def event_sort_key_def dict_get_def strftime_def pad2_def
      year_def month_def)

text \<open>
  Claim C7 (sort determinism), amended. The sort is a stable rearrangement of the events
  into ascending order of the key (text of the announcement date, type priority): an event
  whose key is strictly smaller stands strictly earlier. Between two announcement dates of
  four-digit years, the key of the earlier date is smaller. On one announcement date, an
  actual earnings event (earnings kind, non-empty details without an estimate) has a
  smaller key than an expected one (earnings kind with an estimate), and two events of
  other kinds compare as their kind codes. An event without an announcement date has a
  larger key than every event dated before 9999-12-31; against an event dated 9999-12-31
  itself only the type priority decides.
\<close>

theorem sort_determinism:
  "sorted (map event_sort_key (sort_events es))
   \<and> set (sort_events es) = set es \<and> length (sort_events es) = length es
   \<and> (\<forall>k. filter (\<lambda>e. event_sort_key e = k) (sort_events es)
           = filter (\<lambda>e. event_sort_key e = k) es)
   \<and> (\<forall>i j. i < length es \<and> j < length es
          \<and> event_sort_key (sort_events es ! i) < event_sort_key (sort_events es ! j) \<longrightarrow> i < j)
   \<and> (announcement_date a = Some d1 \<and> announcement_date b = Some d2
        \<and> valid_date d1 \<and> valid_date d2 \<and> 1000 \<le> year d1 \<and> 1000 \<le> year d2 \<and> d1 < d2 \<longrightarrow>
        event_sort_key a < event_sort_key b)
   \<and> (announcement_date a = announcement_date b
        \<and> event_pk a = 2 \<and> details a = Some p \<and> p \<noteq> [] \<and> dict_get p ''estimate'' = JNull
        \<and> event_pk b = 2 \<and> details b = Some p' \<and> dict_get p' ''estimate'' \<noteq> JNull \<longrightarrow>
        event_sort_key a < event_sort_key b)
   \<and> (announcement_date a = announcement_date b \<and> event_pk a \<noteq> 2 \<and> event_pk b \<noteq> 2 \<longrightarrow>
        (event_sort_key a < event_sort_key b \<longleftrightarrow> event_pk a < event_pk b))
   \<and> (announcement_date a = Some d \<and> valid_date d \<and> d \<noteq> (9999, 12, 31)
        \<and> announcement_date b = None \<longrightarrow>
        event_sort_key a < event_sort_key b)"
proof (intro conjI allI impI)
  show sorted: "sorted (map event_sort_key (sort_events es))"
    by (simp add: sort_events_def)
  show "set (sort_events es) = set es" and "length (sort_events es) = length es"
    by (simp_all add: sort_events_def)
  show "filter (\<lambda>e. event_sort_key e = k) (sort_events es) = filter (\<lambda>e. event_sort_key e = k) es"
    for k
    unfolding sort_events_def by (rule sort_key_stable)
  show "i < j"
    if "i < length es \<and> j < length es
        \<and> event_sort_key (sort_events es ! i) < event_sort_key (sort_events es ! j)" for i j
    using that sorted_positions [OF sorted, of i j] by (simp add: sort_events_def)
next
  assume "announcement_date a = Some d1 \<and> announcement_date b = Some d2
        \<and> valid_date d1 \<and> valid_date d2 \<and> 1000 \<le> year d1 \<and> 1000 \<le> year d2 \<and> d1 < d2"
  then show "event_sort_key a < event_sort_key b"
    using sort_key_by_date by blast
next
  assume "announcement_date a = announcement_date b
        \<and> event_pk a = 2 \<and> details a = Some p \<and> p \<noteq> [] \<and> dict_get p ''estimate'' = JNull
        \<and> event_pk b = 2 \<and> details b = Some p' \<and> dict_get p' ''estimate'' \<noteq> JNull"
  then show "event_sort_key a < event_sort_key b"
    using sort_key_actual_before_expected by blast
next
  assume h: "announcement_date a = announcement_date b \<and> event_pk a \<noteq> 2 \<and> event_pk b \<noteq> 2"
  show "event_sort_key a < event_sort_key b \<longleftrightarrow> event_pk a < event_pk b"
    using h sort_key_other_kinds [of a b] by blast
next
  assume "announcement_date a = Some d \<and> valid_date d \<and> d \<noteq> (9999, 12, 31)
        \<and> announcement_date b = None"
  then show "event_sort_key a < event_sort_key b"
    using sort_key_dated_before_undated by blast
qed

text \<open>
  The theorem at an expected and an actual earnings event of one announcement date, given
  in that order, a dividend of the same date, a later split and an undated calendar event:
  the sort puts the dividend first, the actual before the expected, and the undated last.
\<close>

theorem sort_determinism_witness:
  "sort_events
     [\<lparr>event_pk = 2, announcement_date = None, start_date = Some (2024, 8, 5),
       details = Some [(''quarter'', JStr ''Q3''), (''year'', JInt 2024), (''estimate'', JStr ''2.0'')]\<rparr>,
      \<lparr>event_pk = 3, announcement_date = Some (2024, 6, 10), start_date = Some (2024, 6, 10),
       details = Some [(''split_ratio'', JStr ''2-for-1'')]\<rparr>,
      \<lparr>event_pk = 2, announcement_date = Some (2024, 3, 31), start_date = Some (2024, 5, 2),
       details = Some [(''quarter'', JStr ''Q1''), (''year'', JInt 2024), (''estimate'', JStr ''1.5'')]\<rparr>,
      \<lparr>event_pk = 2, announcement_date = Some (2024, 3, 31), start_date = Some (2024, 5, 2),
       details = Some [(''quarter'', JStr ''Q1''), (''year'', JInt 2024)]\<rparr>,
      \<lparr>event_pk = 1, announcement_date = Some (2024, 3, 31), start_date = Some (2024, 4, 15),
       details = Some [(''dividend_amount'', JStr ''0.25'')]\<rparr>]
   = [\<lparr>event_pk = 1, announcement_date = Some (2024, 3, 31), start_date = Some (2024, 4, 15),
       details = Some [(''dividend_amount'', JStr ''0.25'')]\<rparr>,
      \<lparr>event_pk = 2, announcement_date = Some (2024, 3, 31), start_date = Some (2024, 5, 2),
       details = Some [(''quarter'', JStr ''Q1''), (''year'', JInt 2024)]\<rparr>,
      \<lparr>event_pk = 2, announcement_date = Some (2024, 3, 31), start_date = Some (2024, 5, 2),
       details = Some [(''quarter'', JStr ''Q1''), (''year'', JInt 2024), (''estimate'', JStr ''1.5'')]\<rparr>,
      \<lparr>event_pk = 3, announcement_date = Some (2024, 6, 10), start_date = Some (2024, 6, 10),
       details = Some [(''split_ratio'', JStr ''2-for-1'')]\<rparr>,
      \<lparr>event_pk = 2, announcement_date = None, start_date = Some (2024, 8, 5),
       details = Some [(''quarter'', JStr ''Q3''), (''year'', JInt 2024), (''estimate'', JStr ''2.0'')]\<rparr>]
   \<and> valid_date (2024, 3, 31) \<and> valid_date (2024, 6, 10) \<and> (2024, 3, 31) < ((2024, 6, 10) :: date)
   \<and> event_sort_key
        \<lparr>event_pk = 2, announcement_date = Some (2024, 3, 31), start_date = Some (2024, 5, 2),
         details = Some [(''quarter'', JStr ''Q1''), (''year'', JInt 2024), (''estimate'', JStr ''1.5'')]\<rparr>
      < event_sort_key
        \<lparr>event_pk = 3, announcement_date = Some (2024, 6, 10), start_date = Some (2024, 6, 10),
         details = Some [(''split_ratio'', JStr ''2-for-1'')]\<rparr>"
proof -
  let ?undated = "\<lparr>event_pk = 2, announcement_date = None, start_date = Some (2024, 8, 5),
       details = Some [(''quarter'', JStr ''Q3''), (''year'', JInt 2024), (''estimate'', JStr ''2.0'')]\<rparr>"
  let ?split = "\<lparr>event_pk = 3, announcement_date = Some (2024, 6, 10), start_date = Some (2024, 6, 10),
       details = Some [(''split_ratio'', JStr ''2-for-1'')]\<rparr>"
  let ?expected = "\<lparr>event_pk = 2, announcement_date = Some (2024, 3, 31), start_date = Some (2024, 5, 2),
       details = Some [(''quarter'', JStr ''Q1''), (''year'', JInt 2024), (''estimate'', JStr ''1.5'')]\<rparr>"
  let ?actual = "\<lparr>event_pk = 2, announcement_date = Some (2024, 3, 31), start_date = Some (2024, 5, 2),
       details = Some [(''quarter'', JStr ''Q1''), (''year'', JInt 2024)]\<rparr>"
  let ?dividend = "\<lparr>event_pk = 1, announcement_date = Some (2024, 3, 31), start_date = Some (2024, 4, 15),
       details = Some [(''dividend_amount'', JStr ''0.25'')]\<rparr>"
  have v: "valid_date (2024, 3, 31)" "valid_date (2024, 6, 10)"
    "1000 \<le> year (2024, 3, 31)" "1000 \<le> year (2024, 6, 10)"
    "(2024, 3, 31) < ((2024, 6, 10) :: date)"
    by (simp_all add: valid_date_def year_def month_def)
  have es: "event_sort_key ?expected < event_sort_key ?split"
    using sort_determinism [where a = ?expected and b = ?split and ?d1.0 = "(2024, 3, 31)"
        and ?d2.0 = "(2024, 6, 10)", THEN conjunct2, THEN conjunct2, THEN conjunct2,
        THEN conjunct2, THEN conjunct2, THEN conjunct1] v
    by simp
  have run: "sort_events [?undated, ?split, ?expected, ?actual, ?dividend]
      = [?dividend, ?actual, ?expected, ?split, ?undated]"
    by (simp add: sort_events_def event_sort_key_def dict_get_def strftime_def pad2_def
        year_def month_def)
  show ?thesis
    using es v(1,2,5) by (simp add: run)
qed

subsection \<open>Rate-series retention\<close>

lemma set_sorted_reverse [simp]: "set (sorted_reverse xs) = set xs"
  by (simp add: sorted_reverse_def)

lemma length_sorted_reverse [simp]: "length (sorted_reverse xs) = length xs"
  by (simp add: sorted_reverse_def)

lemma distinct_sorted_reverse [simp]: "distinct (sorted_reverse xs) = distinct xs"
  by (simp add: sorted_reverse_def)

lemma sorted_reverse_descending: "sorted (rev (map fst (sorted_reverse xs)))"
  by (simp add: sorted_reverse_def rev_map)

lemma descending_take:
  assumes "sorted (rev (map f xs))"
  shows "sorted (rev (map f (take n xs)))"
proof -
  have "rev (map f xs) = rev (map f (drop n xs)) @ rev (map f (take n xs))"
    by (metis append_take_drop_id map_append rev_append)
  then show ?thesis
    using assms by (simp add: sorted_append)
qed

lemma descending_take_drop:
  assumes "sorted (rev (map f xs))" and "x \<in> set (take n xs)" and "y \<in> set (drop n xs)"
  shows "f y \<le> f x"
proof -
  have "rev (map f xs) = rev (map f (drop n xs)) @ rev (map f (take n xs))"
    by (metis append_take_drop_id map_append rev_append)
  then have "\<forall>a \<in> set (rev (map f (drop n xs))). \<forall>b \<in> set (rev (map f (take n xs))). a \<le> b"
    using assms(1) by (simp add: sorted_append)
  then show ?thesis
    using assms(2,3) by simp
qed

lemma rates_descending: "sorted (rev (map fst (federal_funds_rates iteration parsed)))"
  using descending_take [OF sorted_reverse_descending, of 12 "iteration (remdups parsed)"]
  by (simp add: federal_funds_rates_def)

lemma rearranged:
  assumes "mset (iteration (remdups parsed)) = mset (remdups parsed)"
  shows "set (iteration (remdups parsed)) = set parsed"
    and "distinct (iteration (remdups parsed))"
    and "length (iteration (remdups parsed)) = card (set parsed)"
proof -
  show "set (iteration (remdups parsed)) = set parsed"
    using mset_eq_setD [OF assms] by simp
  show "distinct (iteration (remdups parsed))"
    using mset_eq_imp_distinct_iff [OF assms] by simp
  show "length (iteration (remdups parsed)) = card (set parsed)"
    using mset_eq_length [OF assms] by (simp add: length_remdups_card_conv)
qed

lemma rates_length:
  assumes "mset (iteration (remdups parsed)) = mset (remdups parsed)"
  shows "length (federal_funds_rates iteration parsed) = min 12 (card (set parsed))"
  using rearranged(3) [where iteration = iteration, OF assms] by (simp add: federal_funds_rates_def min.commute)

lemma rates_subset:
  assumes "mset (iteration (remdups parsed)) = mset (remdups parsed)"
  shows "set (federal_funds_rates iteration parsed) \<subseteq> set parsed"
  using set_take_subset [of 12 "sorted_reverse (iteration (remdups parsed))"]
    rearranged(1) [where iteration = iteration, OF assms]
  by (simp add: federal_funds_rates_def)

lemma rates_distinct:
  assumes "mset (iteration (remdups parsed)) = mset (remdups parsed)"
  shows "distinct (federal_funds_rates iteration parsed)"
  using rearranged(2) [where iteration = iteration, OF assms] by (simp add: federal_funds_rates_def)

lemma rates_most_recent:
  assumes perm: "mset (iteration (remdups parsed)) = mset (remdups parsed)"
    and "x \<in> set (federal_funds_rates iteration parsed)" and "y \<in> set parsed"
    and "y \<notin> set (federal_funds_rates iteration parsed)"
  shows "fst y \<le> fst x"
proof -
  let ?u = "iteration (remdups parsed)"
  have ne: "parsed \<noteq> []" using assms(3) by auto
  then have x: "x \<in> set (take 12 (sorted_reverse ?u))"
    using assms(2) by (simp add: federal_funds_rates_def)
  have "y \<in> set ?u" using assms(3) rearranged(1) [where iteration = iteration, OF perm] by simp
  then have "y \<in> set (take 12 (sorted_reverse ?u) @ drop 12 (sorted_reverse ?u))"
    by simp
  moreover have "y \<notin> set (take 12 (sorted_reverse ?u))"
    using assms(4) ne by (simp add: federal_funds_rates_def)
  ultimately have "y \<in> set (drop 12 (sorted_reverse ?u))"
    by (simp only: set_append Un_iff) blast
  then show ?thesis
    using descending_take_drop [OF sorted_reverse_descending x] by simp
qed

lemma rate_calls_once:
  "count_list (process_events_calls accessible us_symbols) Call_FEDERAL_FUNDS_RATE = 1"
proof -
  have "count_list (concat (map symbol_calls xs)) Call_FEDERAL_FUNDS_RATE = 0" for xs
    by (induction xs) (simp_all add: symbol_calls_def)
  then show ?thesis
    by (simp add: process_events_calls_def)
qed

text \<open>
  Claim C8, as stated, at a series that reports one date with two values: the pairs differ,
  so both are in the set and both are retained, with the same date, in whichever order
  the set is iterated.
\<close>

theorem rates_same_date_counterexample:
  "map fst (federal_funds_rates (\<lambda>xs. xs)
              [((2024, 2, 5), ''5.33''), ((2024, 2, 5), ''5.34'')])
     = [(2024, 2, 5), (2024, 2, 5)]
   \<and> map fst (federal_funds_rates rev
              [((2024, 2, 5), ''5.33''), ((2024, 2, 5), ''5.34'')])
     = [(2024, 2, 5), (2024, 2, 5)]"
  by (simp add: federal_funds_rates_def sorted_reverse_def)

text \<open>
  Claim C8 (rate-series retention), amended. A run calls the rate-series source exactly
  once, before any per-symbol call. The retained list is in descending order of date.
  Whatever the order in which the set of parsed pairs is iterated, the retained entries
  are parsed pairs, no two of them are the same (date, value) pair, there are twelve of
  them, or as many as there are distinct parsed pairs when these are fewer, and no
  retained date is older than the date of a parsed pair that is not retained. Entries that
  share a date and differ in value are not merged.
\<close>

theorem rate_series_retention:
  "count_list (process_events_calls accessible us_symbols) Call_FEDERAL_FUNDS_RATE = 1
   \<and> hd (process_events_calls accessible us_symbols) = Call_FEDERAL_FUNDS_RATE
   \<and> sorted (rev (map fst (federal_funds_rates iteration parsed)))
   \<and> (mset (iteration (remdups parsed)) = mset (remdups parsed) \<longrightarrow>
        length (federal_funds_rates iteration parsed) = min 12 (card (set parsed))
        \<and> set (federal_funds_rates iteration parsed) \<subseteq> set parsed
        \<and> distinct (federal_funds_rates iteration parsed)
        \<and> (\<forall>x \<in> set (federal_funds_rates iteration parsed). \<forall>y \<in> set parsed.
              y \<notin> set (federal_funds_rates iteration parsed) \<longrightarrow> fst y \<le> fst x))"
proof (intro conjI ballI impI)
  show "count_list (process_events_calls accessible us_symbols) Call_FEDERAL_FUNDS_RATE = 1"
    by (rule rate_calls_once)
  show "hd (process_events_calls accessible us_symbols) = Call_FEDERAL_FUNDS_RATE"
    by (simp add: process_events_calls_def)
  show "sorted (rev (map fst (federal_funds_rates iteration parsed)))"
    by (rule rates_descending)
next
  assume perm: "mset (iteration (remdups parsed)) = mset (remdups parsed)"
  show "length (federal_funds_rates iteration parsed) = min 12 (card (set parsed))"
    by (rule rates_length [where iteration = iteration, OF perm])
  show "set (federal_funds_rates iteration parsed) \<subseteq> set parsed"
    by (rule rates_subset [where iteration = iteration, OF perm])
  show "distinct (federal_funds_rates iteration parsed)"
    by (rule rates_distinct [where iteration = iteration, OF perm])
  fix x y
  assume "x \<in> set (federal_funds_rates iteration parsed)" and "y \<in> set parsed"
    and "y \<notin> set (federal_funds_rates iteration parsed)"
  then show "fst y \<le> fst x"
    by (rule rates_most_recent [where iteration = iteration, OF perm])
qed

text \<open>
  The theorem at thirteen monthly entries given oldest first, the newest of them twice,
  with the set iterated in the reverse of that order: the repeated pair is retained once,
  the twelve most recent entries are kept, newest first, and the oldest one (January 2023)
  is dropped.
\<close>

theorem rate_series_retention_witness:
  "federal_funds_rates rev
      (map (\<lambda>m. ((2023, m, 5), ''5.33'')) [1 ..< 13]
       @ [((2024, 2, 5), ''5.50''), ((2024, 2, 5), ''5.50'')])
     = ((2024, 2, 5), ''5.50'') # map (\<lambda>m. ((2023, m, 5), ''5.33'')) (rev [2 ..< 13])
   \<and> distinct (federal_funds_rates rev
      (map (\<lambda>m. ((2023, m, 5), ''5.33'')) [1 ..< 13]
       @ [((2024, 2, 5), ''5.50''), ((2024, 2, 5), ''5.50'')]))
   \<and> set (federal_funds_rates rev
      (map (\<lambda>m. ((2023, m, 5), ''5.33'')) [1 ..< 13]
       @ [((2024, 2, 5), ''5.50''), ((2024, 2, 5), ''5.50'')]))
      \<subseteq> set (map (\<lambda>m. ((2023, m, 5), ''5.33'')) [1 ..< 13]
       @ [((2024, 2, 5), ''5.50''), ((2024, 2, 5), ''5.50'')])"
proof -
  let ?parsed = "map (\<lambda>m. ((2023, m, 5), ''5.33'')) [1 ..< 13]
       @ [((2024, 2, 5) :: date, ''5.50''), ((2024, 2, 5), ''5.50'')]"
  have u: "?parsed = [((2023, 1, 5), ''5.33''), ((2023, 2, 5), ''5.33''), ((2023, 3, 5), ''5.33''),
                 ((2023, 4, 5), ''5.33''), ((2023, 5, 5), ''5.33''), ((2023, 6, 5), ''5.33''),
                 ((2023, 7, 5), ''5.33''), ((2023, 8, 5), ''5.33''), ((2023, 9, 5), ''5.33''),
                 ((2023, 10, 5), ''5.33''), ((2023, 11, 5), ''5.33''), ((2023, 12, 5), ''5.33''),
                 ((2024, 2, 5), ''5.50''), ((2024, 2, 5), ''5.50'')]"
    by (simp add: upt_rec)
  have r: "rev [2 ..< 13] = [12, 11, 10, 9, 8, 7, 6, 5, 4, 3, 2 :: nat]"
    by (simp add: upt_rec)
  have perm: "mset (rev (remdups ?parsed)) = mset (remdups ?parsed)"
    by (simp only: mset_rev)
  have run: "federal_funds_rates rev ?parsed
      = ((2024, 2, 5), ''5.50'') # map (\<lambda>m. ((2023, m, 5), ''5.33'')) (rev [2 ..< 13])"
    unfolding u r by (simp add: federal_funds_rates_def sorted_reverse_def)
  note T = rate_series_retention [where iteration = rev and parsed = ?parsed,
      THEN conjunct2, THEN conjunct2, THEN conjunct2, rule_format, OF perm]
  have "distinct (federal_funds_rates rev ?parsed)"
    using T [THEN conjunct2, THEN conjunct2, THEN conjunct1] .
  moreover have "set (federal_funds_rates rev ?parsed) \<subseteq> set ?parsed"
    using T [THEN conjunct2, THEN conjunct1] .
  ultimately show ?thesis
    using run by blast
qed

subsection \<open>Event reconciliation: the plan\<close>

lemma dict_get_pop: "k \<noteq> k' \<Longrightarrow> dict_get (dict_pop d k') k = dict_get d k"
  by (induction d) (auto simp: dict_get_def dict_pop_def)

lemma has_key_pop: "has_key (dict_pop d k') k \<longleftrightarrow> k \<noteq> k' \<and> has_key d k"
  by (induction d) (auto simp: has_key_def dict_pop_def)

lemma dict_get_no_key: "\<not> has_key d k \<Longrightarrow> dict_get d k = JNull"
  by (simp add: has_key_def dict_get_def)

lemma reconcile_new_events:
  "new_events (reconcile xs tbl p e) =
     new_events p @ (if find (\<lambda>r. row_key r = event_key e) xs = None then [e] else [])"
  by (simp add: reconcile_def split: option.splits)


lemma reconcile_events_to_update:
  "events_to_update (reconcile xs tbl p e) =
     events_to_update p
     @ (case find (\<lambda>r. row_key r = event_key e) xs of
          None \<Rightarrow> []
        | Some r \<Rightarrow> if is_expected r \<and> is_new_actual e
                    then [(row_pk r, notes_json (details e))] else [])"
  by (simp add: reconcile_def split: option.splits)

lemma foldl_new_events:
  "new_events (foldl (reconcile xs tbl) p es) =
     new_events p @ filter (\<lambda>e. find (\<lambda>r. row_key r = event_key e) xs = None) es"
  by (induction es arbitrary: p) (simp_all add: reconcile_new_events)


lemma foldl_events_to_update:
  "events_to_update (foldl (reconcile xs tbl) p es) =
     events_to_update p
     @ concat (map (\<lambda>e. case find (\<lambda>r. row_key r = event_key e) xs of
                           None \<Rightarrow> []
                         | Some r \<Rightarrow> if is_expected r \<and> is_new_actual e
                                     then [(row_pk r, notes_json (details e))] else []) es)"
  by (induction es arbitrary: p) (simp_all add: reconcile_events_to_update)

lemma plan_new_events:
  "new_events (make_plan xs tbl es) = filter (\<lambda>e. find (\<lambda>r. row_key r = event_key e) xs = None) es"
  by (simp add: make_plan_def foldl_new_events)


lemma plan_events_to_update:
  "events_to_update (make_plan xs tbl es) =
     concat (map (\<lambda>e. case find (\<lambda>r. row_key r = event_key e) xs of
                         None \<Rightarrow> []
                       | Some r \<Rightarrow> if is_expected r \<and> is_new_actual e
                                   then [(row_pk r, notes_json (details e))] else []) es)"
  by (simp add: make_plan_def foldl_events_to_update)


lemma find_unique_key:
  assumes "distinct (map row_key tbl)" and "r \<in> set tbl"
  shows "find (\<lambda>r'. row_key r' = row_key r) tbl = Some r"
  using assms
proof (induction tbl)
  case Nil
  then show ?case by simp
next
  case (Cons a tbl)
  show ?case
  proof (cases "r = a")
    case True
    then show ?thesis by simp
  next
    case False
    then have r: "r \<in> set tbl" using Cons.prems by simp
    then have "row_key r \<in> row_key ` set tbl" by (rule imageI)
    then have "row_key a \<noteq> row_key r" using Cons.prems by auto
    then show ?thesis using Cons r by simp
  qed
qed

subsection \<open>Event identity keys\<close>

text \<open>
  Claim C2 (event identity uniqueness) does not hold of the code. The loop looks each
  incoming event up among the rows read before the loop and never among the events it has
  already kept, so two incoming events with one identity key that is not yet stored are
  both inserted. Here the earnings report and the earnings calendar deliver the same
  quarter with the same dates into an empty table, where there is nothing to iterate over:
  two rows with one identity key result.
\<close>

theorem duplicate_key_inserted:
  "batch_insert_events (\<lambda>rows. rows) []
     [\<lparr>event_pk = 2, announcement_date = Some (2024, 3, 31), start_date = Some (2024, 5, 2),
       details = Some [(''quarter'', JStr ''Q1''), (''year'', JInt 2024)]\<rparr>,
      \<lparr>event_pk = 2, announcement_date = Some (2024, 3, 31), start_date = Some (2024, 5, 2),
       details = Some [(''quarter'', JStr ''Q1''), (''year'', JInt 2024), (''estimate'', JStr ''1.5'')]\<rparr>]
   = ([\<lparr>row_pk = 1, row_id = 1, row_event_pk = 2, row_ann = Some (2024, 3, 31),
        row_start = Some (2024, 5, 2),
        row_notes = NotesDict [(''quarter'', JStr ''Q1''), (''year'', JInt 2024)]\<rparr>,
       \<lparr>row_pk = 2, row_id = 2, row_event_pk = 2, row_ann = Some (2024, 3, 31),
        row_start = Some (2024, 5, 2),
        row_notes = NotesDict [(''quarter'', JStr ''Q1''), (''year'', JInt 2024),
                               (''estimate'', JStr ''1.5'')]\<rparr>], 2)
   \<and> \<not> distinct (map row_key (fst (batch_insert_events (\<lambda>rows. rows) []
     [\<lparr>event_pk = 2, announcement_date = Some (2024, 3, 31), start_date = Some (2024, 5, 2),
       details = Some [(''quarter'', JStr ''Q1''), (''year'', JInt 2024)]\<rparr>,
      \<lparr>event_pk = 2, announcement_date = Some (2024, 3, 31), start_date = Some (2024, 5, 2),
       details = Some [(''quarter'', JStr ''Q1''), (''year'', JInt 2024), (''estimate'', JStr ''1.5'')]\<rparr>])))"
  by code_simp

subsection \<open>Event reconciliation: the table after a call\<close>

lemma delete_rows_empty [simp]: "delete_rows {} tbl = tbl"
  by (simp add: delete_rows_def)

lemma make_plan_Nil [simp]:
  "make_plan xs tbl [] = \<lparr>new_events = [], expected_to_delete = {}, events_to_update = []\<rparr>"
  by (simp add: make_plan_def)

lemma batch_decomposition:
  "fst (batch_insert_events iteration tbl events) = surviving_rows iteration tbl events @ inserted_rows iteration tbl events"
  by (simp add: batch_insert_events_def surviving_rows_def inserted_rows_def Let_def)

lemma batch_count:
  "snd (batch_insert_events iteration tbl events) =
     length (new_events (make_plan (iteration tbl) tbl events)) + length (events_to_update (make_plan (iteration tbl) tbl events))"
  by (simp add: batch_insert_events_def Let_def)

lemma update_notes_pk [simp]: "map row_pk (update_notes t u) = map row_pk t"
  by (induction t) (simp_all add: update_notes_def)

lemma update_notes_key [simp]: "map row_key (update_notes t u) = map row_key t"
  by (induction t) (simp_all add: update_notes_def row_key_def)

lemma foldl_update_notes_pk [simp]: "map row_pk (foldl update_notes t us) = map row_pk t"
  by (induction us arbitrary: t) simp_all

lemma foldl_update_notes_key [simp]: "map row_key (foldl update_notes t us) = map row_key t"
  by (induction us arbitrary: t) simp_all

lemma surviving_pks:
  "map row_pk (surviving_rows iteration tbl events)
     = filter (\<lambda>pk. pk \<notin> expected_to_delete (make_plan (iteration tbl) tbl events)) (map row_pk tbl)"
  by (simp add: surviving_rows_def delete_rows_def filter_map comp_def)

lemma surviving_keys_subset:
  "set (map row_key (surviving_rows iteration tbl events)) \<subseteq> set (map row_key tbl)"
  by (auto simp: surviving_rows_def delete_rows_def)

lemma new_row_key [simp]: "row_key (new_row a b iev) = event_key (snd iev)"
  by (simp add: new_row_def row_key_def event_key_def)

lemma new_row_notes [simp]: "row_notes (new_row a b iev) = insert_notes (details (snd iev))"
  by (simp add: new_row_def)

lemma new_row_event_pk [simp]: "row_event_pk (new_row a b iev) = event_pk (snd iev)"
  by (simp add: new_row_def)

lemma length_inserted_rows [simp]:
  "length (inserted_rows iteration tbl events) = length (new_events (make_plan (iteration tbl) tbl events))"
  by (simp add: inserted_rows_def)

lemma inserted_rows_nth:
  assumes "i < length (new_events (make_plan (iteration tbl) tbl events))"
  shows "inserted_rows iteration tbl events ! i
           = new_row (coalesce_max (map row_pk (surviving_rows iteration tbl events)) + 1)
                     (coalesce_max (map row_id (surviving_rows iteration tbl events)) + 1)
                     (i, new_events (make_plan (iteration tbl) tbl events) ! i)"
  using assms by (simp add: inserted_rows_def nth_enumerate_eq)


lemma has_key_iff: "has_key d k \<longleftrightarrow> k \<in> fst ` set d"
  by (simp add: has_key_def map_of_eq_None_iff)

lemma dict_pop_absent: "\<not> has_key d k \<Longrightarrow> dict_pop d k = d"
  by (induction d) (auto simp: has_key_iff dict_pop_def)

lemma insert_notes_Some: "insert_notes (Some d) = NotesDict (dict_pop d ''source'')"
  by (simp add: insert_notes_def notes_json_def dict_pop_absent)

lemma insert_notes_None: "insert_notes None = NotesText ''null''"
  by (simp add: insert_notes_def notes_json_def)

lemma null_text_not_expected:
  "\<not> contains ''earnings_calendar'' ''null''" "\<not> contains ''estimate'' ''null''"
  by simp_all

lemma new_row_is_expected:
  "is_expected (new_row a b iev)
     \<longleftrightarrow> event_pk (snd iev) = 2 \<and> (\<exists>d. details (snd iev) = Some d \<and> has_key d ''estimate'')"
proof (cases "details (snd iev)")
  case None
  then show ?thesis
    by (simp add: is_expected_def insert_notes_None)
next
  case (Some d)
  have "dict_get (dict_pop d ''source'') ''source'' = JNull"
    by (rule dict_get_no_key) (simp add: has_key_pop)
  then show ?thesis
    using Some by (simp add: is_expected_def insert_notes_Some has_key_pop)
qed

subsection \<open>The source tag of inserted rows\<close>

lemma inserted_row_facts:
  assumes i: "i < length (new_events (make_plan (iteration tbl) tbl events))"
  shows "row_key (inserted_rows iteration tbl events ! i) = event_key (new_events (make_plan (iteration tbl) tbl events) ! i)"
    and "row_notes (inserted_rows iteration tbl events ! i)
           = (case details (new_events (make_plan (iteration tbl) tbl events) ! i) of
                None \<Rightarrow> NotesText ''null''
              | Some d \<Rightarrow> NotesDict (dict_pop d ''source''))"
    and "is_expected (inserted_rows iteration tbl events ! i)
           \<longleftrightarrow> event_pk (new_events (make_plan (iteration tbl) tbl events) ! i) = 2
               \<and> (\<exists>d. details (new_events (make_plan (iteration tbl) tbl events) ! i) = Some d
                        \<and> has_key d ''estimate'')"
  using i
  by (simp_all add: inserted_rows_nth new_row_is_expected insert_notes_Some insert_notes_None
      split: option.splits)

text \<open>
  Claim C10 (the source tag is dropped on insertion). The table after a call is the
  surviving old rows followed by one inserted row per event kept for insertion. The
  inserted row carries the event's identity key and its payload without the \<^verbatim>\<open>'source'\<close>
  key, every other key as it was (a payload that is \<^verbatim>\<open>None\<close> is stored as the text
  \<^verbatim>\<open>null\<close>). So a later run flags the row as an expected-earnings placeholder exactly when
  it is of the earnings kind and its payload has an \<^verbatim>\<open>'estimate'\<close> key.
\<close>

theorem inserted_rows_drop_source:
  "fst (batch_insert_events iteration tbl events) = surviving_rows iteration tbl events @ inserted_rows iteration tbl events
   \<and> set (map row_pk (surviving_rows iteration tbl events)) \<subseteq> set (map row_pk tbl)
   \<and> length (inserted_rows iteration tbl events) = length (new_events (make_plan (iteration tbl) tbl events))
   \<and> (\<forall>i < length (new_events (make_plan (iteration tbl) tbl events)).
         row_key (inserted_rows iteration tbl events ! i) = event_key (new_events (make_plan (iteration tbl) tbl events) ! i)
         \<and> row_notes (inserted_rows iteration tbl events ! i)
             = (case details (new_events (make_plan (iteration tbl) tbl events) ! i) of
                  None \<Rightarrow> NotesText ''null''
                | Some d \<Rightarrow> NotesDict (dict_pop d ''source''))
         \<and> (\<forall>d. row_notes (inserted_rows iteration tbl events ! i) = NotesDict d \<longrightarrow> \<not> has_key d ''source'')
         \<and> (is_expected (inserted_rows iteration tbl events ! i)
              \<longleftrightarrow> event_pk (new_events (make_plan (iteration tbl) tbl events) ! i) = 2
                  \<and> (\<exists>d. details (new_events (make_plan (iteration tbl) tbl events) ! i) = Some d
                           \<and> has_key d ''estimate'')))
   \<and> (\<forall>d k. k \<noteq> ''source'' \<longrightarrow>
         dict_get (dict_pop d ''source'') k = dict_get d k
         \<and> (has_key (dict_pop d ''source'') k \<longleftrightarrow> has_key d k))"
proof (intro conjI allI impI)
  show "fst (batch_insert_events iteration tbl events) = surviving_rows iteration tbl events @ inserted_rows iteration tbl events"
    by (rule batch_decomposition)
  show "set (map row_pk (surviving_rows iteration tbl events)) \<subseteq> set (map row_pk tbl)"
    by (auto simp: surviving_pks)
  show "length (inserted_rows iteration tbl events) = length (new_events (make_plan (iteration tbl) tbl events))"
    by simp
next
  fix i assume i: "i < length (new_events (make_plan (iteration tbl) tbl events))"
  show "row_key (inserted_rows iteration tbl events ! i) = event_key (new_events (make_plan (iteration tbl) tbl events) ! i)"
    by (rule inserted_row_facts(1) [where iteration = iteration, OF i])
  show nt: "row_notes (inserted_rows iteration tbl events ! i)
           = (case details (new_events (make_plan (iteration tbl) tbl events) ! i) of
                None \<Rightarrow> NotesText ''null''
              | Some d \<Rightarrow> NotesDict (dict_pop d ''source''))"
    by (rule inserted_row_facts(2) [where iteration = iteration, OF i])
  show "is_expected (inserted_rows iteration tbl events ! i)
           \<longleftrightarrow> event_pk (new_events (make_plan (iteration tbl) tbl events) ! i) = 2
               \<and> (\<exists>d. details (new_events (make_plan (iteration tbl) tbl events) ! i) = Some d
                        \<and> has_key d ''estimate'')"
    by (rule inserted_row_facts(3) [where iteration = iteration, OF i])
  show "\<not> has_key d ''source''" if "row_notes (inserted_rows iteration tbl events ! i) = NotesDict d" for d
    using that nt by (auto simp: has_key_pop split: option.splits)
next
  fix d :: payload and k :: string
  assume "k \<noteq> ''source''"
  then show "dict_get (dict_pop d ''source'') k = dict_get d k"
    and "has_key (dict_pop d ''source'') k \<longleftrightarrow> has_key d k"
    by (simp_all add: dict_get_pop has_key_pop)
qed

text \<open>
  The theorem at two calendar events that carry the source tag, one with an estimate and
  one without, inserted into an empty table: neither stored payload has the tag, and only
  the first row is a placeholder for a later run.
\<close>

theorem inserted_rows_drop_source_witness:
  "batch_insert_events (\<lambda>rows. rows) []
     [\<lparr>event_pk = 2, announcement_date = None, start_date = Some (2024, 8, 5),
       details = Some [(''quarter'', JStr ''Q3''), (''year'', JInt 2024), (''estimate'', JStr ''2.0''),
                       (''source'', JStr ''earnings_calendar'')]\<rparr>,
      \<lparr>event_pk = 2, announcement_date = Some (2024, 6, 30), start_date = Some (2024, 8, 2),
       details = Some [(''quarter'', JStr ''Q2''), (''year'', JInt 2024),
                       (''source'', JStr ''earnings_calendar'')]\<rparr>]
   = ([\<lparr>row_pk = 1, row_id = 1, row_event_pk = 2, row_ann = None, row_start = Some (2024, 8, 5),
        row_notes = NotesDict [(''quarter'', JStr ''Q3''), (''year'', JInt 2024),
                               (''estimate'', JStr ''2.0'')]\<rparr>,
       \<lparr>row_pk = 2, row_id = 2, row_event_pk = 2, row_ann = Some (2024, 6, 30),
        row_start = Some (2024, 8, 2),
        row_notes = NotesDict [(''quarter'', JStr ''Q2''), (''year'', JInt 2024)]\<rparr>], 2)
   \<and> is_expected \<lparr>row_pk = 1, row_id = 1, row_event_pk = 2, row_ann = None,
                   row_start = Some (2024, 8, 5),
                   row_notes = NotesDict [(''quarter'', JStr ''Q3''), (''year'', JInt 2024),
                                          (''estimate'', JStr ''2.0'')]\<rparr>
   \<and> \<not> is_expected \<lparr>row_pk = 2, row_id = 2, row_event_pk = 2, row_ann = Some (2024, 6, 30),
                     row_start = Some (2024, 8, 2),
                     row_notes = NotesDict [(''quarter'', JStr ''Q2''), (''year'', JInt 2024)]\<rparr>"
proof -
  let ?es = "[\<lparr>event_pk = 2, announcement_date = None, start_date = Some (2024, 8, 5),
       details = Some [(''quarter'', JStr ''Q3''), (''year'', JInt 2024), (''estimate'', JStr ''2.0''),
                       (''source'', JStr ''earnings_calendar'')]\<rparr>,
      \<lparr>event_pk = 2, announcement_date = Some (2024, 6, 30), start_date = Some (2024, 8, 2),
       details = Some [(''quarter'', JStr ''Q2''), (''year'', JInt 2024),
                       (''source'', JStr ''earnings_calendar'')]\<rparr>]"
  have run: "batch_insert_events (\<lambda>rows. rows) [] ?es
   = ([\<lparr>row_pk = 1, row_id = 1, row_event_pk = 2, row_ann = None, row_start = Some (2024, 8, 5),
        row_notes = NotesDict [(''quarter'', JStr ''Q3''), (''year'', JInt 2024),
                               (''estimate'', JStr ''2.0'')]\<rparr>,
       \<lparr>row_pk = 2, row_id = 2, row_event_pk = 2, row_ann = Some (2024, 6, 30),
        row_start = Some (2024, 8, 2),
        row_notes = NotesDict [(''quarter'', JStr ''Q2''), (''year'', JInt 2024)]\<rparr>], 2)"
    by code_simp
  have plan: "new_events (make_plan [] [] ?es) = ?es"
    by (simp add: plan_new_events)
  have surv: "surviving_rows (\<lambda>rows. rows) [] ?es = []"
    by (simp add: surviving_rows_def plan_events_to_update delete_rows_def)
  note T = inserted_rows_drop_source [where iteration = "\<lambda>rows. rows" and tbl = "[]" and events = ?es]
  have "fst (batch_insert_events (\<lambda>rows. rows) [] ?es) = surviving_rows (\<lambda>rows. rows) [] ?es @ inserted_rows (\<lambda>rows. rows) [] ?es"
    using T by (rule conjunct1)
  then have ins: "inserted_rows (\<lambda>rows. rows) [] ?es = fst (batch_insert_events (\<lambda>rows. rows) [] ?es)"
    by (simp only: surv append_Nil)
  note rows = T [THEN conjunct2, THEN conjunct2, THEN conjunct2, THEN conjunct1, rule_format]
  have e1: "is_expected (inserted_rows (\<lambda>rows. rows) [] ?es ! 0)"
    using rows [of 0] by (simp add: plan has_key_def)
  have e2: "\<not> is_expected (inserted_rows (\<lambda>rows. rows) [] ?es ! 1)"
    using rows [of 1] by (simp add: plan has_key_def)
  show ?thesis
    using e1 e2 by (simp add: ins run)
qed

subsection \<open>Placeholder promotion\<close>





















subsection \<open>Indicator ingestion: one pair\<close>

lemma filter_new_after:
  "filter_new prev xs = Inr kept \<Longrightarrow> \<forall>x \<in> set kept. prev < fst x"
proof (induction xs arbitrary: kept)
  case Nil
  then show ?case by simp
next
  case (Cons e es)
  then show ?case
    by (auto split: option.splits sum.splits if_splits)
qed

lemma dict_set_keys: "fst ` set (dict_set dd d v) = insert d (fst ` set dd)"
  by (induction dd d v rule: dict_set.induct) auto

lemma entry_outcome_Store:
  assumes "entry_outcome convert col prev x = Store date v" and "prev < fst x"
  shows "date_ok col prev date"
  using assms
  by (auto simp: entry_outcome_def date_ok_def Let_def
      split: if_splits option.splits conv.splits)

lemma build_date_data_dates:
  assumes "build_date_data convert col prev xs acc = Inr dd"
    and "\<forall>x \<in> set xs. prev < fst x"
    and "\<forall>d \<in> fst ` set acc. date_ok col prev d"
  shows "\<forall>d \<in> fst ` set dd. date_ok col prev d"
  using assms
proof (induction xs arbitrary: acc)
  case Nil
  then show ?case by simp
next
  case (Cons x xs)
  have rest: "\<forall>x \<in> set xs. prev < fst x" using Cons.prems(2) by simp
  show ?case
  proof (cases "entry_outcome convert col prev x")
    case Drop
    then have "build_date_data convert col prev xs acc = Inr dd"
      using Cons.prems(1) by simp
    then show ?thesis using Cons.IH rest Cons.prems(3) by blast
  next
    case (Raise err)
    then show ?thesis using Cons.prems(1) by simp
  next
    case (Store date v)
    then have "build_date_data convert col prev xs (dict_set acc date v) = Inr dd"
      using Cons.prems(1) by simp
    moreover have "date_ok col prev date"
      using entry_outcome_Store [OF Store] Cons.prems(2) by simp
    then have "\<forall>d \<in> fst ` set (dict_set acc date v). date_ok col prev d"
      using Cons.prems(3) by (simp add: dict_set_keys)
    ultimately show ?thesis using Cons.IH rest by blast
  qed
qed

lemma existing_dates_Some:
  assumes "existing_dates tbl d = Some pk"
  shows "\<exists>r \<in> set tbl. ir_date r = d \<and> ir_pk r = pk"
proof -
  let ?rs = "filter (\<lambda>r. ir_date r = d) tbl"
  have ne: "?rs \<noteq> []" and pk: "pk = ir_pk (last ?rs)"
    using assms by (auto simp: existing_dates_def split: list.splits)
  then have "last ?rs \<in> set ?rs" by (intro last_in_set)
  then show ?thesis using pk by auto
qed

lemma split_rows_inserts:
  "ins \<in> set (snd (split_rows tbl col n dd)) \<Longrightarrow> fst (snd ins) \<in> fst ` set dd"
proof (induction dd arbitrary: n)
  case Nil
  then show ?case by simp
next
  case (Cons x dd)
  obtain d v where x: "x = (d, v)" by (cases x)
  show ?case
    using Cons.prems Cons.IH [of "n + 1"] unfolding x
    by (auto split: prod.splits option.splits)
qed

lemma split_rows_updates:
  "u \<in> set (fst (split_rows tbl col n dd)) \<Longrightarrow>
     snd (snd u) = col \<and> (\<exists>d \<in> fst ` set dd. existing_dates tbl d = Some (fst (snd u)))"
proof (induction dd arbitrary: n)
  case Nil
  then show ?case by simp
next
  case (Cons x dd)
  obtain d v where x: "x = (d, v)" by (cases x)
  show ?case
    using Cons.prems Cons.IH [of "n + 1"] unfolding x
    by (auto split: prod.splits option.splits)
qed

lemma update_cell_length [simp]: "length (update_cell tbl u) = length tbl"
  by (simp add: update_cell_def)

lemma foldl_update_cell_length [simp]: "length (foldl update_cell tbl us) = length tbl"
  by (induction us arbitrary: tbl) simp_all

lemma update_cell_nth_other:
  "i < length tbl \<Longrightarrow> ir_pk (tbl ! i) \<noteq> fst (snd u) \<Longrightarrow> update_cell tbl u ! i = tbl ! i"
  by (simp add: update_cell_def)

lemma foldl_update_cell_nth_other:
  assumes "i < length tbl" and "\<forall>u \<in> set us. ir_pk (tbl ! i) \<noteq> fst (snd u)"
  shows "foldl update_cell tbl us ! i = tbl ! i"
  using assms
proof (induction us arbitrary: tbl)
  case Nil
  then show ?case by simp
next
  case (Cons u us)
  have same: "update_cell tbl u ! i = tbl ! i"
    using Cons.prems by (simp add: update_cell_nth_other)
  have "foldl update_cell (update_cell tbl u) us ! i = update_cell tbl u ! i"
    using Cons.prems same by (intro Cons.IH) simp_all
  then show ?case using same by simp
qed

lemma copy_rows_nth_old: "i < length tbl \<Longrightarrow> copy_rows tbl col inserts ! i = tbl ! i"
  by (simp add: copy_rows_def nth_append)

lemma copy_rows_length [simp]: "length (copy_rows tbl col inserts) = length tbl + length inserts"
  by (simp add: copy_rows_def)

lemma copy_rows_nth_new:
  assumes "length tbl \<le> i" and "i < length tbl + length inserts"
  shows "ir_date (copy_rows tbl col inserts ! i) = fst (snd (inserts ! (i - length tbl)))"
    and "ir_cols (copy_rows tbl col inserts ! i) col = Some (snd (snd (inserts ! (i - length tbl))))"
  using assms by (simp_all add: copy_rows_def nth_append nth_enumerate_eq)

text \<open>The successful outcomes of the loop body, taken apart.\<close>

lemma ingest_pair_cases:
  assumes "ingest_pair convert tbl col data = Inr res"
  obtains (available) data_list where "data = Payload data_list"
      and "filter_new (prev_date_of tbl col) data_list = Inr []"
      and "res = \<lparr>pr_updates = [], pr_inserts = [], pr_available = True, pr_table = tbl\<rparr>"
    | (stored) data_list kept dd where "data = Payload data_list"
      and "filter_new (prev_date_of tbl col) data_list = Inr kept" and "kept \<noteq> []"
      and "build_date_data convert col (prev_date_of tbl col) (rev kept) [] = Inr dd"
      and "pr_updates res = fst (split_rows tbl col (coalesce_max (map ir_id tbl)) dd)"
      and "pr_inserts res = snd (split_rows tbl col (coalesce_max (map ir_id tbl)) dd)"
      and "pr_available res = False"
      and "pr_table res = copy_rows (foldl update_cell tbl (pr_updates res)) col (pr_inserts res)"
proof (cases data)
  case Raises
  then show ?thesis using assms by (simp add: ingest_pair_def)
next
  case (Payload data_list)
  show ?thesis
  proof (cases "filter_new (prev_date_of tbl col) data_list")
    case (Inl err)
    then show ?thesis using assms Payload by (simp add: ingest_pair_def)
  next
    case (Inr kept)
    show ?thesis
    proof (cases "kept = []")
      case True
      then show ?thesis
        using assms Payload Inr available by (simp add: ingest_pair_def)
    next
      case False
      show ?thesis
      proof (cases "build_date_data convert col (prev_date_of tbl col) (rev kept) []")
        case (Inl err)
        then show ?thesis using assms Payload Inr False by (simp add: ingest_pair_def)
      next
        case dd: (Inr dd)
        show ?thesis
          using assms Payload Inr False dd
          by (intro stored [of data_list kept dd])
            (auto simp: ingest_pair_def Let_def split: prod.splits)
      qed
    qed
  qed
qed

subsection \<open>Watermark\<close>

lemma ingest_pair_dates:
  assumes "ingest_pair convert tbl col data = Inr res"
  shows "\<forall>ins \<in> set (pr_inserts res). date_ok col (prev_date_of tbl col) (fst (snd ins))"
    and "\<forall>u \<in> set (pr_updates res). snd (snd u) = col
           \<and> (\<exists>r \<in> set tbl. ir_pk r = fst (snd u) \<and> date_ok col (prev_date_of tbl col) (ir_date r))"
    and "pr_table res = copy_rows (foldl update_cell tbl (pr_updates res)) col (pr_inserts res)"
proof -
  let ?prev = "prev_date_of tbl col"
  have "(\<forall>ins \<in> set (pr_inserts res). date_ok col ?prev (fst (snd ins)))
      \<and> (\<forall>u \<in> set (pr_updates res). snd (snd u) = col
           \<and> (\<exists>r \<in> set tbl. ir_pk r = fst (snd u) \<and> date_ok col ?prev (ir_date r)))
      \<and> pr_table res = copy_rows (foldl update_cell tbl (pr_updates res)) col (pr_inserts res)"
    using assms
  proof (cases rule: ingest_pair_cases)
    case (available data_list)
    then show ?thesis by (simp add: copy_rows_def)
  next
    case (stored data_list kept dd)
    have "\<forall>x \<in> set (rev kept). ?prev < fst x"
      using filter_new_after [OF stored(2)] by simp
    then have dd: "\<forall>d \<in> fst ` set dd. date_ok col ?prev d"
      using build_date_data_dates [OF stored(4)] by simp
    have "date_ok col ?prev (fst (snd ins))" if "ins \<in> set (pr_inserts res)" for ins
    proof -
      have "ins \<in> set (snd (split_rows tbl col (coalesce_max (map ir_id tbl)) dd))"
        using that by (simp add: stored(6))
      then have "fst (snd ins) \<in> fst ` set dd"
        by (rule split_rows_inserts)
      then show ?thesis using dd by blast
    qed
    moreover have "snd (snd u) = col
        \<and> (\<exists>r \<in> set tbl. ir_pk r = fst (snd u) \<and> date_ok col ?prev (ir_date r))"
      if "u \<in> set (pr_updates res)" for u
    proof -
      have "u \<in> set (fst (split_rows tbl col (coalesce_max (map ir_id tbl)) dd))"
        using that by (simp add: stored(5))
      from split_rows_updates [OF this]
      obtain d where col: "snd (snd u) = col" and d: "d \<in> fst ` set dd"
        and ex: "existing_dates tbl d = Some (fst (snd u))"
        by blast
      from existing_dates_Some [OF ex] obtain r where "r \<in> set tbl" "ir_date r = d"
        "ir_pk r = fst (snd u)" by blast
      then show ?thesis using col d dd by blast
    qed
    ultimately show ?thesis using stored(8) by blast
  qed
  then show "\<forall>ins \<in> set (pr_inserts res). date_ok col (prev_date_of tbl col) (fst (snd ins))"
    and "\<forall>u \<in> set (pr_updates res). snd (snd u) = col
           \<and> (\<exists>r \<in> set tbl. ir_pk r = fst (snd u) \<and> date_ok col (prev_date_of tbl col) (ir_date r))"
    and "pr_table res = copy_rows (foldl update_cell tbl (pr_updates res)) col (pr_inserts res)"
    by blast+
qed

lemma ingest_pair_new_rows:
  assumes ok: "ingest_pair convert tbl col data = Inr res"
    and i: "length tbl \<le> i" "i < length (pr_table res)"
  shows "date_ok col (prev_date_of tbl col) (ir_date (pr_table res ! i))"
proof -
  note facts = ingest_pair_dates [OF ok]
  let ?old = "foldl update_cell tbl (pr_updates res)"
  have len: "length ?old = length tbl" by simp
  have i': "length ?old \<le> i" "i < length ?old + length (pr_inserts res)"
    using i by (simp_all add: facts(3))
  have "ir_date (pr_table res ! i) = fst (snd (pr_inserts res ! (i - length tbl)))"
    using copy_rows_nth_new(1) [OF i'] by (simp add: facts(3))
  moreover have "pr_inserts res ! (i - length tbl) \<in> set (pr_inserts res)"
    using i' by (intro nth_mem) simp
  ultimately show ?thesis using facts(1) by simp
qed

lemma ingest_pair_old_rows:
  assumes ok: "ingest_pair convert tbl col data = Inr res"
    and pks: "distinct (map ir_pk tbl)"
    and i: "i < length tbl" and old: "\<not> date_ok col (prev_date_of tbl col) (ir_date (tbl ! i))"
  shows "pr_table res ! i = tbl ! i"
proof -
  note facts = ingest_pair_dates [OF ok]
  have "ir_pk (tbl ! i) \<noteq> fst (snd u)" if u: "u \<in> set (pr_updates res)" for u
  proof
    assume eq: "ir_pk (tbl ! i) = fst (snd u)"
    from facts(2) u obtain r where r: "r \<in> set tbl" "ir_pk r = fst (snd u)"
      and okd: "date_ok col (prev_date_of tbl col) (ir_date r)" by blast
    then obtain j where j: "j < length tbl" "tbl ! j = r" by (auto simp: in_set_conv_nth)
    have "ir_pk (tbl ! j) = ir_pk (tbl ! i)" using j r(2) eq by simp
    then have "j = i"
      using pks j(1) i nth_eq_iff_index_eq [of "map ir_pk tbl" j i] by simp
    then show False using okd old j(2) by simp
  qed
  then have "foldl update_cell tbl (pr_updates res) ! i = tbl ! i"
    using i by (intro foldl_update_cell_nth_other) auto
  then show ?thesis
    using i by (simp add: facts(3) copy_rows_nth_old)
qed

text \<open>
  Claim C3, as stated, at the weekly federal funds rate column with the watermark at day
  738886 (2024-01-01) and an upstream entry dated two days later: the entry passes the
  filter, its date is moved back five days, and a row dated 738883, before the watermark,
  is inserted.
\<close>

theorem watermark_weekly_counterexample:
  "watermark [\<lparr>ir_pk = 1, ir_id = 1, ir_date = 738886,
               ir_cols = (\<lambda>c. None)(''WEFFRP_value'' \<mapsto> ''5.25'')\<rparr>] ''WEFFRP_value'' = Some 738886
   \<and> (case ingest_pair (\<lambda>is_int s. Converted s)
             [\<lparr>ir_pk = 1, ir_id = 1, ir_date = 738886,
               ir_cols = (\<lambda>c. None)(''WEFFRP_value'' \<mapsto> ''5.25'')\<rparr>] ''WEFFRP_value''
             (Payload [\<lparr>entry_date = Some 738888, entry_value = Some ''5.33''\<rparr>]) of
         Inl err \<Rightarrow> False
       | Inr res \<Rightarrow> pr_inserts res = [(2, 738883, ''5.33'')])"
  by (simp add: watermark_def ingest_pair_def prev_date_of_def coalesce_max_def
      entry_outcome_def existing_dates_def)

text \<open>
  Claim C3 (watermark monotonicity), amended. \<^verbatim>\<open>prev_date\<close> is the watermark of the column,
  or 2000-01-01 when the column is empty. For every column but the weekly federal funds
  rate, a successful pass inserts rows dated after \<^verbatim>\<open>prev_date\<close> only, updates only rows
  dated after it, and (row keys being distinct) leaves every row dated at or before it as
  it was. For the weekly federal funds rate the same holds of the dates later than
  \<^verbatim>\<open>prev_date\<close> minus five days, other than \<^verbatim>\<open>prev_date\<close>: an entry whose shifted date is the
  watermark is dropped, and a stored entry has an unshifted date after the watermark, so
  its stored date may lie up to four days before the watermark.
\<close>

theorem watermark_monotonicity:
  assumes "ingest_pair convert tbl col data = Inr res"
  shows "(watermark tbl col = Some w \<longrightarrow> prev_date_of tbl col = w)
     \<and> (watermark tbl col = None \<longrightarrow> prev_date_of tbl col = 730120)
     \<and> (\<forall>d. date_ok col (prev_date_of tbl col) d
            \<longleftrightarrow> (if col = ''WEFFRP_value''
                 then prev_date_of tbl col - 5 < d \<and> d \<noteq> prev_date_of tbl col
                 else prev_date_of tbl col < d))
     \<and> (\<forall>ins \<in> set (pr_inserts res). date_ok col (prev_date_of tbl col) (fst (snd ins)))
     \<and> (\<forall>u \<in> set (pr_updates res). snd (snd u) = col
           \<and> (\<exists>r \<in> set tbl. ir_pk r = fst (snd u)
                  \<and> date_ok col (prev_date_of tbl col) (ir_date r)))
     \<and> length (pr_table res) = length tbl + length (pr_inserts res)
     \<and> (\<forall>i. length tbl \<le> i \<and> i < length (pr_table res) \<longrightarrow>
            date_ok col (prev_date_of tbl col) (ir_date (pr_table res ! i)))
     \<and> (distinct (map ir_pk tbl) \<longrightarrow>
          (\<forall>i < length tbl. \<not> date_ok col (prev_date_of tbl col) (ir_date (tbl ! i)) \<longrightarrow>
               pr_table res ! i = tbl ! i))"
proof (intro conjI allI impI)
  show "prev_date_of tbl col = w" if "watermark tbl col = Some w"
    using that by (simp add: prev_date_of_def)
  show "prev_date_of tbl col = 730120" if "watermark tbl col = None"
    using that by (simp add: prev_date_of_def)
  show "date_ok col (prev_date_of tbl col) d
            \<longleftrightarrow> (if col = ''WEFFRP_value''
                 then prev_date_of tbl col - 5 < d \<and> d \<noteq> prev_date_of tbl col
                 else prev_date_of tbl col < d)" for d
    by (simp add: date_ok_def)
  show "\<forall>ins \<in> set (pr_inserts res). date_ok col (prev_date_of tbl col) (fst (snd ins))"
    by (rule ingest_pair_dates(1) [OF assms])
  show "\<forall>u \<in> set (pr_updates res). snd (snd u) = col
           \<and> (\<exists>r \<in> set tbl. ir_pk r = fst (snd u)
                  \<and> date_ok col (prev_date_of tbl col) (ir_date r))"
    by (rule ingest_pair_dates(2) [OF assms])
  show "length (pr_table res) = length tbl + length (pr_inserts res)"
    by (simp add: ingest_pair_dates(3) [OF assms])
  show "date_ok col (prev_date_of tbl col) (ir_date (pr_table res ! i))"
    if "length tbl \<le> i \<and> i < length (pr_table res)" for i
    using that ingest_pair_new_rows [OF assms] by blast
  show "pr_table res ! i = tbl ! i"
    if "distinct (map ir_pk tbl)" and "i < length tbl"
      and "\<not> date_ok col (prev_date_of tbl col) (ir_date (tbl ! i))" for i
    using that ingest_pair_old_rows [OF assms] by blast
qed

text \<open>
  The theorem at the scenario of the specification, on the monthly rate column: the
  watermark is 2024-01-01 (day 738886) and upstream delivers 2024-02-01 (day 738917) with
  5.5 and 2024-01-01 with 5.25. Exactly one row is inserted, for 2024-02-01, and nothing is
  updated.
\<close>

theorem watermark_monotonicity_witness:
  "watermark [\<lparr>ir_pk = 1, ir_id = 1, ir_date = 738886,
               ir_cols = (\<lambda>c. None)(''MEFFRP_value'' \<mapsto> ''5.25'')\<rparr>] ''MEFFRP_value'' = Some 738886
   \<and> (case ingest_pair (\<lambda>is_int s. Converted s)
             [\<lparr>ir_pk = 1, ir_id = 1, ir_date = 738886,
               ir_cols = (\<lambda>c. None)(''MEFFRP_value'' \<mapsto> ''5.25'')\<rparr>] ''MEFFRP_value''
             (Payload [\<lparr>entry_date = Some 738917, entry_value = Some ''5.5''\<rparr>,
                       \<lparr>entry_date = Some 738886, entry_value = Some ''5.25''\<rparr>]) of
         Inl err \<Rightarrow> False
       | Inr res \<Rightarrow> pr_inserts res = [(2, 738917, ''5.5'')] \<and> pr_updates res = []
                    \<and> 738886 < ir_date (pr_table res ! 1) \<and> pr_table res ! 0
                        = \<lparr>ir_pk = 1, ir_id = 1, ir_date = 738886,
                           ir_cols = (\<lambda>c. None)(''MEFFRP_value'' \<mapsto> ''5.25'')\<rparr>)"
proof -
  let ?T = "[\<lparr>ir_pk = 1, ir_id = 1, ir_date = 738886,
               ir_cols = (\<lambda>c. None)(''MEFFRP_value'' \<mapsto> ''5.25'')\<rparr>]"
  let ?P = "Payload [\<lparr>entry_date = Some 738917, entry_value = Some ''5.5''\<rparr>,
                     \<lparr>entry_date = Some 738886, entry_value = Some ''5.25''\<rparr>]"
  have w: "watermark ?T ''MEFFRP_value'' = Some 738886"
    by (simp add: watermark_def)
  have "\<exists>res. ingest_pair (\<lambda>is_int s. Converted s) ?T ''MEFFRP_value'' ?P = Inr res
          \<and> pr_inserts res = [(2, 738917, ''5.5'')] \<and> pr_updates res = []"
    by (simp add: ingest_pair_def prev_date_of_def watermark_def coalesce_max_def
        entry_outcome_def existing_dates_def)
  then obtain res where res: "ingest_pair (\<lambda>is_int s. Converted s) ?T ''MEFFRP_value'' ?P = Inr res"
    and ins: "pr_inserts res = [(2, 738917, ''5.5'')]" and upd: "pr_updates res = []"
    by blast
  note T = watermark_monotonicity [OF res, of 738886]
  have prev: "prev_date_of ?T ''MEFFRP_value'' = 738886"
    using T [THEN conjunct1] w by blast
  have len: "length (pr_table res) = 2"
    using T [THEN conjunct2, THEN conjunct2, THEN conjunct2, THEN conjunct2, THEN conjunct2,
        THEN conjunct1] ins by simp
  have "date_ok ''MEFFRP_value'' 738886 (ir_date (pr_table res ! 1))"
    using T [THEN conjunct2, THEN conjunct2, THEN conjunct2, THEN conjunct2, THEN conjunct2,
        THEN conjunct2, THEN conjunct1, rule_format, of 1] len prev by simp
  then have d1: "738886 < ir_date (pr_table res ! 1)"
    by (simp add: date_ok_def)
  have old: "pr_table res ! 0 = ?T ! 0"
    using T [THEN conjunct2, THEN conjunct2, THEN conjunct2, THEN conjunct2, THEN conjunct2,
        THEN conjunct2, THEN conjunct2, rule_format, of 0] prev
    by (simp add: date_ok_def)
  show ?thesis
    using w ins upd d1 old by (simp add: res)
qed

subsection \<open>Failures of one pair\<close>

lemma ingest_pair_fetch_raises: "ingest_pair convert tbl col Raises = Inl FetchError"
  by (simp add: ingest_pair_def)

lemma filter_new_unreadable:
  "\<exists>e \<in> set data_list. entry_date e = None \<Longrightarrow> filter_new prev data_list = Inl EntryError"
proof (induction data_list)
  case Nil
  then show ?case by simp
next
  case (Cons e es)
  show ?case
  proof (cases "entry_date e")
    case None
    then show ?thesis by simp
  next
    case (Some d)
    then have "\<exists>e \<in> set es. entry_date e = None" using Cons.prems by auto
    then have "filter_new prev es = Inl EntryError" by (rule Cons.IH)
    then show ?thesis using Some by simp
  qed
qed

lemma ingest_pair_unreadable:
  "\<exists>e \<in> set data_list. entry_date e = None \<Longrightarrow>
     ingest_pair convert tbl col (Payload data_list) = Inl EntryError"
  by (simp add: ingest_pair_def filter_new_unreadable)

lemma run_pairs_append:
  "run_pairs convert fetch (ps1 @ ps2) s =
     (case run_pairs convert fetch ps1 s of
        (s1, None) \<Rightarrow> run_pairs convert fetch ps2 s1
      | (s1, Some err) \<Rightarrow> (s1, Some err))"
proof (induction ps1 arbitrary: s)
  case Nil
  show ?case by simp
next
  case (Cons p ps1)
  obtain indicator l where p: "p = (indicator, l)" by (cases p)
  show ?case
    unfolding p by (simp add: Cons.IH Let_def split: option.splits sum.splits)
qed

lemma run_pairs_failing_pair:
  assumes "indicator_map indicator = Some suffix"
    and "ingest_pair convert (rs_tables s l) (prefix_map l @ suffix) (fetch indicator l) = Inl err"
  shows "run_pairs convert fetch ((indicator, l) # rest) s = (s, Some err)"
  using assms by simp

lemma run_aborts:
  assumes before: "run_pairs convert fetch before s = (s1, None)"
    and ind: "indicator_map indicator = Some suffix"
    and fails: "fetch indicator l = Raises
                \<or> (\<exists>data_list. fetch indicator l = Payload data_list
                      \<and> (\<exists>e \<in> set data_list. entry_date e = None))"
  shows "run_pairs convert fetch (before @ (indicator, l) # rest) s
           = (s1, Some (if fetch indicator l = Raises then FetchError else EntryError))"
proof -
  let ?err = "if fetch indicator l = Raises then FetchError else EntryError"
  have "ingest_pair convert (rs_tables s1 l) (prefix_map l @ suffix) (fetch indicator l) = Inl ?err"
  proof (cases "fetch indicator l = Raises")
    case True
    then show ?thesis by (simp add: ingest_pair_fetch_raises)
  next
    case False
    then obtain data_list where "fetch indicator l = Payload data_list"
      and "\<exists>e \<in> set data_list. entry_date e = None"
      using fails by blast
    then show ?thesis by (simp add: ingest_pair_unreadable)
  qed
  then have "run_pairs convert fetch ((indicator, l) # rest) s1 = (s1, Some ?err)"
    using ind by (rule run_pairs_failing_pair [rotated])
  then show ?thesis
    by (simp add: run_pairs_append before)
qed

text \<open>
  Claim C6, as stated, at a run over the monthly federal funds rate and the monthly CPI,
  with empty tables: the rate fetch raises and upstream holds one new CPI entry. The
  function ends with the fetch error and an empty log: the CPI pair is never processed.
  Had the rate fetch returned no entries, the CPI entry would have been inserted.
\<close>

theorem indicator_error_counterexample:
  "snd (process_economic_indicators (\<lambda>is_int s. Converted s)
          (\<lambda>indicator l. if indicator = ''Federal_funds_interval_list'' then Raises
                          else Payload [\<lparr>entry_date = Some 738917, entry_value = Some ''310.3''\<rparr>])
          [Monthly]
          [(''Federal_funds_interval_list'', [Monthly]), (''CPI_interval_list'', [Monthly])]
          (\<lambda>l. [])) = Some FetchError
   \<and> length (rs_log (fst (process_economic_indicators (\<lambda>is_int s. Converted s)
          (\<lambda>indicator l. if indicator = ''Federal_funds_interval_list'' then Raises
                          else Payload [\<lparr>entry_date = Some 738917, entry_value = Some ''310.3''\<rparr>])
          [Monthly]
          [(''Federal_funds_interval_list'', [Monthly]), (''CPI_interval_list'', [Monthly])]
          (\<lambda>l. [])))) = 0
   \<and> rs_inserted (fst (process_economic_indicators (\<lambda>is_int s. Converted s)
          (\<lambda>indicator l. if indicator = ''Federal_funds_interval_list'' then Payload []
                          else Payload [\<lparr>entry_date = Some 738917, entry_value = Some ''310.3''\<rparr>])
          [Monthly]
          [(''Federal_funds_interval_list'', [Monthly]), (''CPI_interval_list'', [Monthly])]
          (\<lambda>l. []))) = 1"
  by code_simp

text \<open>
  Claim C6 (indicator error isolation), amended. When the fetch of a pair raises, or its
  payload holds an entry whose date cannot be read, the exception leaves
  \<^verbatim>\<open>process_economic_indicators\<close>: the function ends with that error, the tables and the log
  are those left by the pairs before the failing one, and no later pair is processed.
  \<^verbatim>\<open>resolve_EIE\<close> catches the exception, reports no available notices and zero inserted
  records, and goes on with the tables as the earlier pairs left them.
\<close>

theorem indicator_error_aborts:
  assumes "pairs_of interval_list items = before @ (indicator, l) # rest"
    and "run_pairs convert fetch before
           \<lparr>rs_tables = tables, rs_available = [], rs_inserted = 0, rs_log = []\<rparr> = (s1, None)"
    and "indicator_map indicator = Some suffix"
    and "fetch indicator l = Raises
         \<or> (\<exists>data_list. fetch indicator l = Payload data_list
               \<and> (\<exists>e \<in> set data_list. entry_date e = None))"
  shows "process_economic_indicators convert fetch interval_list items tables
           = (s1, Some (if fetch indicator l = Raises then FetchError else EntryError))
     \<and> resolve_EIE_indicators convert fetch interval_list items tables = (rs_tables s1, [], 0)"
proof -
  have run: "process_economic_indicators convert fetch interval_list items tables
           = (s1, Some (if fetch indicator l = Raises then FetchError else EntryError))"
    unfolding process_economic_indicators_def assms(1)
    by (rule run_aborts [OF assms(2,3,4)])
  then show ?thesis
    by (simp add: resolve_EIE_indicators_def)
qed

text \<open>
  The theorem at a run over the monthly CPI and then the monthly federal funds rate, with
  empty tables: the CPI entry is inserted, then the rate fetch raises. The function ends
  with the error; the caller keeps the CPI row and reports zero inserted records.
\<close>

theorem indicator_error_aborts_witness:
  "snd (process_economic_indicators (\<lambda>is_int s. Converted s)
          (\<lambda>indicator l. if indicator = ''Federal_funds_interval_list'' then Raises
                          else Payload [\<lparr>entry_date = Some 738917, entry_value = Some ''310.3''\<rparr>])
          [Monthly]
          [(''CPI_interval_list'', [Monthly]), (''Federal_funds_interval_list'', [Monthly])]
          (\<lambda>l. [])) = Some FetchError
   \<and> snd (snd (resolve_EIE_indicators (\<lambda>is_int s. Converted s)
          (\<lambda>indicator l. if indicator = ''Federal_funds_interval_list'' then Raises
                          else Payload [\<lparr>entry_date = Some 738917, entry_value = Some ''310.3''\<rparr>])
          [Monthly]
          [(''CPI_interval_list'', [Monthly]), (''Federal_funds_interval_list'', [Monthly])]
          (\<lambda>l. []))) = 0
   \<and> map ir_date (fst (resolve_EIE_indicators (\<lambda>is_int s. Converted s)
          (\<lambda>indicator l. if indicator = ''Federal_funds_interval_list'' then Raises
                          else Payload [\<lparr>entry_date = Some 738917, entry_value = Some ''310.3''\<rparr>])
          [Monthly]
          [(''CPI_interval_list'', [Monthly]), (''Federal_funds_interval_list'', [Monthly])]
          (\<lambda>l. [])) Monthly) = [738917]"
proof -
  let ?conv = "\<lambda>(is_int :: bool) (s :: string). Converted s"
  let ?fetch = "\<lambda>(indicator :: string) (l :: interval).
      if indicator = ''Federal_funds_interval_list'' then Raises
      else Payload [\<lparr>entry_date = Some 738917, entry_value = Some ''310.3''\<rparr>]"
  let ?items = "[(''CPI_interval_list'', [Monthly]), (''Federal_funds_interval_list'', [Monthly])]"
  let ?init = "\<lparr>rs_tables = (\<lambda>l. []) :: interval \<Rightarrow> string ind_row list, rs_available = [],
                rs_inserted = 0, rs_log = []\<rparr>"
  have pairs: "pairs_of [Monthly] ?items
      = [] @ [(''CPI_interval_list'', Monthly)] @ (''Federal_funds_interval_list'', Monthly) # []"
    by (simp add: pairs_of_def indicator_map_def)
  define s1 where "s1 = fst (run_pairs ?conv ?fetch [(''CPI_interval_list'', Monthly)] ?init)"
  have "snd (run_pairs ?conv ?fetch [(''CPI_interval_list'', Monthly)] ?init) = None"
    by code_simp
  then have s1: "run_pairs ?conv ?fetch [(''CPI_interval_list'', Monthly)] ?init = (s1, None)"
    by (simp add: s1_def prod_eq_iff)
  have t1: "map ir_date (rs_tables s1 Monthly) = [738917]"
    unfolding s1_def by code_simp
  have ind: "indicator_map ''Federal_funds_interval_list'' = Some ''EFFRP_value''"
    by (simp add: indicator_map_def)
  have fails: "?fetch ''Federal_funds_interval_list'' Monthly = Raises
         \<or> (\<exists>data_list. ?fetch ''Federal_funds_interval_list'' Monthly = Payload data_list
               \<and> (\<exists>e \<in> set data_list. entry_date e = None))"
    by simp
  have pairs': "pairs_of [Monthly] ?items
      = [(''CPI_interval_list'', Monthly)] @ (''Federal_funds_interval_list'', Monthly) # []"
    using pairs by simp
  note T = indicator_error_aborts [of "[Monthly]" ?items "[(''CPI_interval_list'', Monthly)]"
      "''Federal_funds_interval_list''" Monthly "[]" ?conv ?fetch "\<lambda>l. []" s1 "''EFFRP_value''",
      OF pairs' s1 ind fails]
  show ?thesis
    using T t1 by simp
qed

subsection \<open>A second run\<close>

lemma max_of_None: "max_of xs = None \<longleftrightarrow> xs = []"
  by (induction xs) (auto split: option.splits)

lemma max_of_ge: "x \<in> set xs \<Longrightarrow> \<exists>m. max_of xs = Some m \<and> x \<le> m"
proof (induction xs)
  case Nil
  then show ?case by simp
next
  case (Cons y ys)
  show ?case
  proof (cases "max_of ys")
    case None
    then have "ys = []" by (simp add: max_of_None)
    then show ?thesis using Cons.prems by simp
  next
    case (Some m)
    show ?thesis
    proof (cases "x = y")
      case True
      then show ?thesis using Some by simp
    next
      case False
      then have "x \<in> set ys" using Cons.prems by simp
      then show ?thesis using Cons.IH Some by auto
    qed
  qed
qed

lemma max_of_mem: "max_of xs = Some m \<Longrightarrow> m \<in> set xs"
proof (induction xs arbitrary: m)
  case Nil
  then show ?case by simp
next
  case (Cons y ys)
  show ?case
  proof (cases "max_of ys")
    case None
    then show ?thesis using Cons.prems by simp
  next
    case (Some m')
    then have "m' \<in> set ys" by (rule Cons.IH)
    then show ?thesis using Cons.prems Some by (auto simp: max_def)
  qed
qed

lemma watermark_None: "watermark tbl col = None \<longleftrightarrow> (\<forall>r \<in> set tbl. ir_cols r col = None)"
  by (auto simp: watermark_def max_of_None filter_empty_conv)

lemma watermark_ge:
  assumes "r \<in> set tbl" and "ir_cols r col \<noteq> None"
  shows "\<exists>m. watermark tbl col = Some m \<and> ir_date r \<le> m"
proof -
  have "ir_date r \<in> set (map ir_date (filter (\<lambda>r. ir_cols r col \<noteq> None) tbl))"
    using assms by auto
  then show ?thesis
    unfolding watermark_def by (rule max_of_ge)
qed

lemma prev_date_ge:
  assumes "r \<in> set tbl" and "ir_cols r col \<noteq> None"
  shows "ir_date r \<le> prev_date_of tbl col"
  using watermark_ge [OF assms] by (auto simp: prev_date_of_def)

lemma update_cell_date [simp]: "map ir_date (update_cell t u) = map ir_date t"
  by (induction t) (simp_all add: update_cell_def)

lemma update_cell_pk [simp]: "map ir_pk (update_cell t u) = map ir_pk t"
  by (induction t) (simp_all add: update_cell_def)

lemma foldl_update_cell_date [simp]: "map ir_date (foldl update_cell t us) = map ir_date t"
  by (induction us arbitrary: t) simp_all

lemma foldl_update_cell_pk [simp]: "map ir_pk (foldl update_cell t us) = map ir_pk t"
  by (induction us arbitrary: t) simp_all

lemma update_cell_keeps:
  "i < length t \<Longrightarrow> ir_cols (t ! i) c \<noteq> None \<Longrightarrow> ir_cols (update_cell t u ! i) c \<noteq> None"
  by (simp add: update_cell_def)

lemma update_cell_sets:
  "i < length t \<Longrightarrow> ir_pk (t ! i) = fst (snd u) \<Longrightarrow>
     ir_cols (update_cell t u ! i) (snd (snd u)) \<noteq> None"
  by (simp add: update_cell_def)

lemma foldl_update_cell_keeps:
  "i < length t \<Longrightarrow> ir_cols (t ! i) c \<noteq> None \<Longrightarrow> ir_cols (foldl update_cell t us ! i) c \<noteq> None"
proof (induction us arbitrary: t)
  case Nil
  then show ?case by simp
next
  case (Cons u us)
  have "ir_cols (update_cell t u ! i) c \<noteq> None"
    using Cons.prems by (rule update_cell_keeps)
  then show ?case
    using Cons.IH [of "update_cell t u"] Cons.prems(1) by simp
qed

lemma foldl_update_cell_sets:
  assumes "i < length t" and "u \<in> set us" and "ir_pk (t ! i) = fst (snd u)"
  shows "ir_cols (foldl update_cell t us ! i) (snd (snd u)) \<noteq> None"
  using assms
proof (induction us arbitrary: t)
  case Nil
  then show ?case by simp
next
  case (Cons a us)
  have pk: "ir_pk (update_cell t a ! i) = ir_pk (t ! i)"
    using Cons.prems(1) nth_map [of i "update_cell t a" ir_pk] nth_map [of i t ir_pk] by simp
  show ?case
  proof (cases "u = a")
    case True
    then have "ir_cols (update_cell t a ! i) (snd (snd u)) \<noteq> None"
      using Cons.prems by (simp add: update_cell_sets)
    then have "ir_cols (foldl update_cell (update_cell t a) us ! i) (snd (snd u)) \<noteq> None"
      using Cons.prems(1) by (intro foldl_update_cell_keeps) simp_all
    then show ?thesis by simp
  next
    case False
    then have "u \<in> set us" using Cons.prems(2) by simp
    then have "ir_cols (foldl update_cell (update_cell t a) us ! i) (snd (snd u)) \<noteq> None"
      using Cons.prems(1,3) pk by (intro Cons.IH) simp_all
    then show ?thesis by simp
  qed
qed

lemma split_rows_covers:
  assumes "(d, v) \<in> set dd"
  shows "(\<exists>pk. existing_dates tbl d = Some pk
              \<and> (\<exists>v'. (v', pk, col) \<in> set (fst (split_rows tbl col n dd))))
         \<or> (\<exists>i v'. (i, d, v') \<in> set (snd (split_rows tbl col n dd)))"
  using assms
proof (induction dd arbitrary: n)
  case Nil
  then show ?case by simp
next
  case (Cons x dd)
  obtain d' v' where x: "x = (d', v')" by (cases x)
  show ?case
  proof (cases "(d, v) = x")
    case True
    then show ?thesis
      unfolding x by (cases "existing_dates tbl d'") (auto split: prod.splits)
  next
    case False
    then have "(d, v) \<in> set dd" using Cons.prems by simp
    from Cons.IH [OF this, of "n + 1"] show ?thesis
      unfolding x by (cases "existing_dates tbl d'") (auto split: prod.splits)
  qed
qed

lemma stored_nonnull:
  assumes "(d, v) \<in> set dd"
  shows "\<exists>r \<in> set (copy_rows (foldl update_cell tbl (fst (split_rows tbl col n dd))) col
                      (snd (split_rows tbl col n dd))).
           ir_date r = d \<and> ir_cols r col \<noteq> None"
proof -
  let ?us = "fst (split_rows tbl col n dd)"
  let ?ins = "snd (split_rows tbl col n dd)"
  let ?old = "foldl update_cell tbl ?us"
  from split_rows_covers [OF assms, of tbl col n] consider
      (upd) pk v' where "existing_dates tbl d = Some pk" "(v', pk, col) \<in> set ?us"
    | (ins) i v' where "(i, d, v') \<in> set ?ins"
    by blast
  then show ?thesis
  proof cases
    case upd
    from existing_dates_Some [OF upd(1)] obtain r where "r \<in> set tbl" "ir_date r = d" "ir_pk r = pk"
      by blast
    then obtain j where j: "j < length tbl" "tbl ! j = r" by (auto simp: in_set_conv_nth)
    have "ir_cols (?old ! j) col \<noteq> None"
      using foldl_update_cell_sets [OF j(1) upd(2)] j(2) \<open>ir_pk r = pk\<close> by simp
    moreover have "ir_date (?old ! j) = d"
      using j \<open>ir_date r = d\<close> nth_map [of j ?old ir_date] nth_map [of j tbl ir_date] by simp
    moreover have "?old ! j \<in> set ?old" using j(1) by simp
    ultimately show ?thesis by (auto simp: copy_rows_def)
  next
    case ins
    then obtain k where k: "k < length ?ins" "?ins ! k = (i, d, v')"
      by (auto simp: in_set_conv_nth)
    let ?i = "length ?old + k"
    have "ir_date (copy_rows ?old col ?ins ! ?i) = d"
      and "ir_cols (copy_rows ?old col ?ins ! ?i) col \<noteq> None"
      using copy_rows_nth_new [of ?old ?i ?ins col] k by simp_all
    moreover have "copy_rows ?old col ?ins ! ?i \<in> set (copy_rows ?old col ?ins)"
      using k(1) by (intro nth_mem) simp
    ultimately show ?thesis by blast
  qed
qed

lemma old_nonnull:
  assumes "r \<in> set tbl" and "ir_cols r c \<noteq> None"
  shows "\<exists>r' \<in> set (copy_rows (foldl update_cell tbl us) col ins).
           ir_date r' = ir_date r \<and> ir_cols r' c \<noteq> None"
proof -
  let ?old = "foldl update_cell tbl us"
  from assms(1) obtain j where j: "j < length tbl" "tbl ! j = r" by (auto simp: in_set_conv_nth)
  have "ir_cols (?old ! j) c \<noteq> None"
    using foldl_update_cell_keeps [OF j(1)] assms(2) j(2) by simp
  moreover have "ir_date (?old ! j) = ir_date r"
    using j nth_map [of j ?old ir_date] nth_map [of j tbl ir_date] by simp
  moreover have "?old ! j \<in> set ?old" using j(1) by simp
  ultimately show ?thesis by (auto simp: copy_rows_def)
qed

lemma build_no_raise:
  "build_date_data convert col prev xs acc = Inr dd \<Longrightarrow> x \<in> set xs \<Longrightarrow>
     entry_outcome convert col prev x \<noteq> Raise err"
proof (induction xs arbitrary: acc)
  case Nil
  then show ?case by simp
next
  case (Cons y ys)
  then show ?case
    by (cases "entry_outcome convert col prev y") auto
qed

lemma build_keeps_keys:
  "build_date_data convert col prev xs acc = Inr dd \<Longrightarrow> fst ` set acc \<subseteq> fst ` set dd"
proof (induction xs arbitrary: acc)
  case Nil
  then show ?case by simp
next
  case (Cons y ys)
  show ?case
  proof (cases "entry_outcome convert col prev y")
    case Drop
    then show ?thesis using Cons by simp
  next
    case (Raise err)
    then show ?thesis using Cons.prems by simp
  next
    case (Store date v)
    then have "fst ` set (dict_set acc date v) \<subseteq> fst ` set dd"
      using Cons by simp
    then show ?thesis by (auto simp: dict_set_keys)
  qed
qed

lemma build_stores:
  "build_date_data convert col prev xs acc = Inr dd \<Longrightarrow> x \<in> set xs \<Longrightarrow>
     entry_outcome convert col prev x = Store date v \<Longrightarrow> date \<in> fst ` set dd"
proof (induction xs arbitrary: acc)
  case Nil
  then show ?case by simp
next
  case (Cons y ys)
  show ?case
  proof (cases "x = y")
    case True
    then have "build_date_data convert col prev ys (dict_set acc date v) = Inr dd"
      using Cons.prems by simp
    then have "fst ` set (dict_set acc date v) \<subseteq> fst ` set dd"
      by (rule build_keeps_keys)
    then show ?thesis by (auto simp: dict_set_keys)
  next
    case False
    then have x: "x \<in> set ys" using Cons.prems(2) by simp
    show ?thesis
    proof (cases "entry_outcome convert col prev y")
      case Drop
      then show ?thesis using Cons x by simp
    next
      case (Raise err)
      then show ?thesis using Cons.prems by simp
    next
      case (Store date' v')
      then show ?thesis using Cons x by simp
    qed
  qed
qed

lemma build_all_drop:
  "\<forall>x \<in> set xs. entry_outcome convert col prev x = Drop \<Longrightarrow>
     build_date_data convert col prev xs acc = Inr acc"
  by (induction xs) simp_all

lemma entry_outcome_prev:
  "col \<noteq> ''WEFFRP_value'' \<Longrightarrow>
     entry_outcome convert col prev x = entry_outcome convert col prev' x"
  by (simp add: entry_outcome_def)

lemma entry_outcome_date:
  "col \<noteq> ''WEFFRP_value'' \<Longrightarrow> entry_outcome convert col prev x = Store date v \<Longrightarrow> date = fst x"
  by (auto simp: entry_outcome_def split: option.splits if_splits conv.splits)

lemma filter_new_mono:
  "filter_new p xs = Inr kept \<Longrightarrow> p \<le> p' \<Longrightarrow>
     filter_new p' xs = Inr (filter (\<lambda>x. p' < fst x) kept)"
proof (induction xs arbitrary: kept)
  case Nil
  then show ?case by simp
next
  case (Cons e es)
  then show ?case
    by (auto split: option.splits sum.splits if_splits)
qed

text \<open>A pass in which every kept entry is dropped writes nothing.\<close>

lemma ingest_pair_all_dropped:
  assumes "filter_new (prev_date_of tbl col) data_list = Inr kept"
    and "\<forall>x \<in> set kept. entry_outcome convert col (prev_date_of tbl col) x = Drop"
  shows "ingest_pair convert tbl col (Payload data_list)
           = Inr \<lparr>pr_updates = [], pr_inserts = [], pr_available = (kept = []), pr_table = tbl\<rparr>"
proof (cases "kept = []")
  case True
  then show ?thesis using assms(1) by (simp add: ingest_pair_def)
next
  case False
  have "build_date_data convert col (prev_date_of tbl col) (rev kept) [] = Inr []"
    using assms(2) by (intro build_all_drop) simp
  then show ?thesis
    using assms(1) False by (simp add: ingest_pair_def copy_rows_def)
qed

lemma first_run_table:
  assumes ok: "ingest_pair convert tbl col data = Inr res"
  shows "prev_date_of tbl col \<le> prev_date_of (pr_table res) col \<or> col = ''WEFFRP_value''"
proof (cases "col = ''WEFFRP_value''")
  case True
  then show ?thesis by simp
next
  case nonweekly: False
  from ok show ?thesis
  proof (cases rule: ingest_pair_cases)
    case (available data_list)
    then show ?thesis by simp
  next
    case (stored data_list kept dd)
    let ?T = "pr_table res"
    have T: "?T = copy_rows (foldl update_cell tbl (fst (split_rows tbl col (coalesce_max (map ir_id tbl)) dd)))
                    col (snd (split_rows tbl col (coalesce_max (map ir_id tbl)) dd))"
      using stored(5,6,8) by simp
    show ?thesis
    proof (cases "watermark tbl col")
      case (Some w0)
      then have "w0 \<in> set (map ir_date (filter (\<lambda>r. ir_cols r col \<noteq> None) tbl))"
        unfolding watermark_def by (rule max_of_mem)
      then obtain r where "r \<in> set tbl" "ir_cols r col \<noteq> None" and w0: "ir_date r = w0"
        by auto
      then obtain r' where "r' \<in> set ?T" "ir_date r' = ir_date r" "ir_cols r' col \<noteq> None"
        using old_nonnull [of r tbl col] unfolding T by blast
      then have "ir_date r \<le> prev_date_of ?T col"
        using prev_date_ge [of r' ?T col] by simp
      then show ?thesis using Some w0 by (simp add: prev_date_of_def)
    next
      case None
      show ?thesis
      proof (cases dd)
        case Nil
        then have "?T = tbl" using T by (simp add: copy_rows_def)
        then show ?thesis by simp
      next
        case (Cons x xs)
        obtain d v where "x = (d, v)" by (cases x)
        then have mem: "(d, v) \<in> set dd" using Cons by simp
        have "\<forall>x \<in> set (rev kept). prev_date_of tbl col < fst x"
          using filter_new_after [OF stored(2)] by simp
        then have "\<forall>d \<in> fst ` set dd. date_ok col (prev_date_of tbl col) d"
          using build_date_data_dates [OF stored(4)] by simp
        then have "prev_date_of tbl col < d"
          using mem nonweekly by (force simp: date_ok_def)
        moreover obtain r where "r \<in> set ?T" "ir_date r = d" "ir_cols r col \<noteq> None"
          using stored_nonnull [OF mem] unfolding T by blast
        then have "d \<le> prev_date_of ?T col"
          using prev_date_ge [of r ?T col] by simp
        ultimately show ?thesis by simp
      qed
    qed
  qed
qed

lemma all_dropped_iff:
  "all_dropped convert col prev data \<longleftrightarrow>
     (\<exists>data_list kept. data = Payload data_list \<and> filter_new prev data_list = Inr kept
        \<and> (\<forall>x \<in> set kept. entry_outcome convert col prev x = Drop))"
proof (cases data)
  case Raises
  then show ?thesis by (simp add: all_dropped_def)
next
  case (Payload data_list)
  show ?thesis
  proof (cases "filter_new prev data_list")
    case (Inl err)
    then show ?thesis using Payload by (simp add: all_dropped_def)
  next
    case (Inr kept)
    have "(case entry_outcome convert col prev x of
             Drop \<Rightarrow> True | Raise err \<Rightarrow> False | Store date v \<Rightarrow> False)
           \<longleftrightarrow> entry_outcome convert col prev x = Drop" for x
      by (cases "entry_outcome convert col prev x") simp_all
    then show ?thesis
      using Payload Inr by (simp add: all_dropped_def list_all_iff)
  qed
qed

lemma all_dropped_pass:
  assumes "all_dropped convert col (prev_date_of tbl col) data"
  shows "\<exists>a. ingest_pair convert tbl col data
           = Inr \<lparr>pr_updates = [], pr_inserts = [], pr_available = a, pr_table = tbl\<rparr>"
proof -
  from assms obtain data_list kept where "data = Payload data_list"
    and "filter_new (prev_date_of tbl col) data_list = Inr kept"
    and "\<forall>x \<in> set kept. entry_outcome convert col (prev_date_of tbl col) x = Drop"
    unfolding all_dropped_iff by blast
  then show ?thesis
    using ingest_pair_all_dropped [of tbl col data_list kept convert] by blast
qed

text \<open>After a successful pass over a column that is not shifted, a second pass drops everything.\<close>

lemma first_pass_settles:
  assumes nonweekly: "col \<noteq> ''WEFFRP_value''"
    and ok: "ingest_pair convert tbl col data = Inr res"
  shows "all_dropped convert col (prev_date_of (pr_table res) col) data"
proof -
  let ?p0 = "prev_date_of tbl col"
  let ?p1 = "prev_date_of (pr_table res) col"
  have mono: "?p0 \<le> ?p1"
    using first_run_table [OF ok] nonweekly by simp
  from ok show ?thesis
  proof (cases rule: ingest_pair_cases)
    case (available data_list)
    then have "filter_new ?p1 data_list = Inr []" by simp
    then show ?thesis using available(1) unfolding all_dropped_iff by simp
  next
    case (stored data_list kept dd)
    let ?kept2 = "filter (\<lambda>x. ?p1 < fst x) kept"
    have f2: "filter_new ?p1 data_list = Inr ?kept2"
      using filter_new_mono [OF stored(2) mono] .
    have T: "pr_table res = copy_rows (foldl update_cell tbl (fst (split_rows tbl col (coalesce_max (map ir_id tbl)) dd)))
                    col (snd (split_rows tbl col (coalesce_max (map ir_id tbl)) dd))"
      using stored(5,6,8) by simp
    have "entry_outcome convert col ?p1 x = Drop" if x: "x \<in> set ?kept2" for x
    proof (cases "entry_outcome convert col ?p0 x")
      case Drop
      then show ?thesis using entry_outcome_prev [OF nonweekly, of convert ?p1 x ?p0] by simp
    next
      case (Raise err)
      have "x \<in> set (rev kept)" using x by simp
      then show ?thesis using build_no_raise [OF stored(4)] Raise by blast
    next
      case (Store date v)
      have xk: "x \<in> set (rev kept)" using x by simp
      have date: "date = fst x" using entry_outcome_date [OF nonweekly Store] .
      have "date \<in> fst ` set dd" using build_stores [OF stored(4) xk Store] .
      then obtain v' where "(date, v') \<in> set dd" by auto
      then obtain r where "r \<in> set (pr_table res)" "ir_date r = date" "ir_cols r col \<noteq> None"
        using stored_nonnull [of date v' dd tbl col] unfolding T by blast
      then have "date \<le> ?p1"
        using prev_date_ge [of r "pr_table res" col] by simp
      then have "fst x \<le> ?p1" using date by simp
      then show ?thesis using x by simp
    qed
    then show ?thesis
      using f2 stored(1) unfolding all_dropped_iff by blast
  qed
qed

text \<open>A pass over one column leaves the watermark of every other column unchanged.\<close>

lemma update_cell_other_column:
  "snd (snd u) \<noteq> col \<Longrightarrow>
     map ir_date (filter (\<lambda>r. ir_cols r col \<noteq> None) (update_cell tbl u))
       = map ir_date (filter (\<lambda>r. ir_cols r col \<noteq> None) tbl)"
  by (induction tbl) (simp_all add: update_cell_def)

lemma foldl_update_cell_other_column:
  "\<forall>u \<in> set us. snd (snd u) \<noteq> col \<Longrightarrow>
     map ir_date (filter (\<lambda>r. ir_cols r col \<noteq> None) (foldl update_cell tbl us))
       = map ir_date (filter (\<lambda>r. ir_cols r col \<noteq> None) tbl)"
proof (induction us arbitrary: tbl)
  case Nil
  show ?case by simp
next
  case (Cons u us)
  then show ?case
    using Cons.IH [of "update_cell tbl u"] update_cell_other_column [of u col tbl] by simp
qed

lemma copy_rows_other_column:
  "col' \<noteq> col \<Longrightarrow>
     filter (\<lambda>r. ir_cols r col \<noteq> None) (copy_rows tbl col' ins)
       = filter (\<lambda>r. ir_cols r col \<noteq> None) tbl"
  by (simp add: copy_rows_def filter_empty_conv split: prod.splits)

lemma pass_other_column:
  assumes "col' \<noteq> col" and ok: "ingest_pair convert tbl col' data = Inr res"
  shows "watermark (pr_table res) col = watermark tbl col"
  using ok
proof (cases rule: ingest_pair_cases)
  case (available data_list)
  then show ?thesis by simp
next
  case (stored data_list kept dd)
  have "\<forall>u \<in> set (pr_updates res). snd (snd u) \<noteq> col"
    using split_rows_updates [of _ tbl col' "coalesce_max (map ir_id tbl)" dd] assms(1)
    unfolding stored(5) by blast
  then have "map ir_date (filter (\<lambda>r. ir_cols r col \<noteq> None) (foldl update_cell tbl (pr_updates res)))
           = map ir_date (filter (\<lambda>r. ir_cols r col \<noteq> None) tbl)"
    by (rule foldl_update_cell_other_column)
  then show ?thesis
    unfolding stored(8) watermark_def copy_rows_other_column [OF assms(1)] by (rule arg_cong)
qed

subsection \<open>A second run over all pairs\<close>

lemma indicator_map_inj:
  "indicator_map a = Some suffix \<Longrightarrow> indicator_map b = Some suffix \<Longrightarrow> a = b"
  by (auto simp: indicator_map_def split: if_splits)

lemma weekly_rate_column:
  "indicator_map indicator = Some suffix \<Longrightarrow> prefix_map l @ suffix = ''WEFFRP_value'' \<Longrightarrow>
     (indicator, l) = (''Federal_funds_interval_list'', Weekly)"
  by (cases l) (auto simp: indicator_map_def prefix_map_def split: if_splits)

lemma settled_after_pass:
  assumes ind: "indicator_map indicator = Some suffix"
    and ok: "ingest_pair convert (tables l) (prefix_map l @ suffix) (fetch indicator l) = Inr res"
  shows "settled convert fetch (tables(l := pr_table res)) (indicator, l)"
  using first_pass_settles [OF _ ok] ind by (auto simp: settled_def)

lemma settled_kept:
  assumes ind: "indicator_map indicator = Some suffix"
    and ok: "ingest_pair convert (tables l) (prefix_map l @ suffix) (fetch indicator l) = Inr res"
    and q: "settled convert fetch tables q"
  shows "settled convert fetch (tables(l := pr_table res)) q"
proof (cases "indicator_map (fst q)")
  case None
  then show ?thesis by (simp add: settled_def)
next
  case (Some suffix')
  show ?thesis
  proof (cases "snd q = l")
    case False
    then show ?thesis using q Some by (simp add: settled_def)
  next
    case same: True
    show ?thesis
    proof (cases "suffix' = suffix")
      case True
      then have "fst q = indicator"
        using indicator_map_inj [of "fst q" suffix indicator] Some ind by simp
      then have "q = (indicator, l)" using same by (simp add: prod_eq_iff)
      then show ?thesis
        using settled_after_pass [where tables = tables and fetch = fetch, OF ind ok] by simp
    next
      case False
      then have "prefix_map l @ suffix \<noteq> prefix_map l @ suffix'" by simp
      then have "watermark (pr_table res) (prefix_map l @ suffix')
                   = watermark (tables l) (prefix_map l @ suffix')"
        using ok by (rule pass_other_column)
      then have "prev_date_of (pr_table res) (prefix_map l @ suffix')
                   = prev_date_of (tables l) (prefix_map l @ suffix')"
        by (simp add: prev_date_of_def)
      then show ?thesis using q Some same by (simp add: settled_def)
    qed
  qed
qed

text \<open>A run that ends without an error leaves every pair it went through settled.\<close>

lemma run_pairs_settles:
  assumes "run_pairs convert fetch ps s = (s1, None)"
    and "\<forall>p \<in> P. settled convert fetch (rs_tables s) p"
  shows "\<forall>p \<in> P \<union> set ps. settled convert fetch (rs_tables s1) p"
  using assms
proof (induction ps arbitrary: s P)
  case Nil
  then show ?case by simp
next
  case (Cons p ps)
  obtain indicator l where p: "p = (indicator, l)" by (cases p)
  show ?case
  proof (cases "indicator_map indicator")
    case None
    then have run: "run_pairs convert fetch ps s = (s1, None)"
      using Cons.prems(1) p by simp
    have "settled convert fetch (rs_tables s) p"
      using None p by (simp add: settled_def)
    then have "\<forall>q \<in> insert p P. settled convert fetch (rs_tables s) q"
      using Cons.prems(2) by simp
    from Cons.IH [OF run this] show ?thesis by simp
  next
    case (Some suffix)
    show ?thesis
    proof (cases "ingest_pair convert (rs_tables s l) (prefix_map l @ suffix) (fetch indicator l)")
      case (Inl err)
      then show ?thesis using Cons.prems(1) p Some by simp
    next
      case (Inr res)
      let ?s' = "s\<lparr>rs_tables := (rs_tables s)(l := pr_table res),
                    rs_available :=
                      (if pr_available res
                          \<and> (indicator, l, prev_date_of (rs_tables s l) (prefix_map l @ suffix))
                              \<notin> set (rs_available s)
                       then rs_available s
                            @ [(indicator, l, prev_date_of (rs_tables s l) (prefix_map l @ suffix))]
                       else rs_available s),
                    rs_inserted := rs_inserted s + length (pr_inserts res),
                    rs_log := rs_log s @ [((indicator, l), res)]\<rparr>"
      have run: "run_pairs convert fetch ps ?s' = (s1, None)"
        using Cons.prems(1) p Some Inr by (simp add: Let_def)
      have "\<forall>q \<in> insert p P. settled convert fetch (rs_tables ?s') q"
        using settled_after_pass [where tables = "rs_tables s" and fetch = fetch, OF Some Inr]
          settled_kept [where tables = "rs_tables s" and fetch = fetch, OF Some Inr]
          Cons.prems(2) p
        by auto
      from Cons.IH [OF run this] show ?thesis by simp
    qed
  qed
qed

text \<open>A run over settled pairs: what it logs, and what it leaves when no pair is shifted.\<close>

lemma run_pairs_settled_log:
  assumes "\<forall>p \<in> set ps. settled convert fetch (rs_tables s) p"
  shows "\<forall>e \<in> set (rs_log (fst (run_pairs convert fetch ps s))).
           e \<in> set (rs_log s) \<or> fst e = (''Federal_funds_interval_list'', Weekly)
           \<or> pr_updates (snd e) = [] \<and> pr_inserts (snd e) = []"
  using assms
proof (induction ps arbitrary: s)
  case Nil
  then show ?case by simp
next
  case (Cons p ps)
  obtain indicator l where p: "p = (indicator, l)" by (cases p)
  show ?case
  proof (cases "indicator_map indicator")
    case None
    then show ?thesis using Cons p by simp
  next
    case (Some suffix)
    show ?thesis
    proof (cases "ingest_pair convert (rs_tables s l) (prefix_map l @ suffix) (fetch indicator l)")
      case (Inl err)
      then show ?thesis using p Some by simp
    next
      case (Inr res)
      let ?s' = "s\<lparr>rs_tables := (rs_tables s)(l := pr_table res),
                    rs_available :=
                      (if pr_available res
                          \<and> (indicator, l, prev_date_of (rs_tables s l) (prefix_map l @ suffix))
                              \<notin> set (rs_available s)
                       then rs_available s
                            @ [(indicator, l, prev_date_of (rs_tables s l) (prefix_map l @ suffix))]
                       else rs_available s),
                    rs_inserted := rs_inserted s + length (pr_inserts res),
                    rs_log := rs_log s @ [((indicator, l), res)]\<rparr>"
      have run: "run_pairs convert fetch (p # ps) s = run_pairs convert fetch ps ?s'"
        using p Some Inr by (simp add: Let_def)
      have "\<forall>q \<in> set ps. settled convert fetch (rs_tables ?s') q"
        using settled_kept [where tables = "rs_tables s" and fetch = fetch, OF Some Inr]
          Cons.prems by simp
      from Cons.IH [OF this]
      have IH: "\<forall>e \<in> set (rs_log (fst (run_pairs convert fetch ps ?s'))).
           e \<in> set (rs_log ?s') \<or> fst e = (''Federal_funds_interval_list'', Weekly)
           \<or> pr_updates (snd e) = [] \<and> pr_inserts (snd e) = []" .
      have new: "(indicator, l) = (''Federal_funds_interval_list'', Weekly)
           \<or> pr_updates res = [] \<and> pr_inserts res = []"
      proof (cases "prefix_map l @ suffix = ''WEFFRP_value''")
        case True
        then show ?thesis using weekly_rate_column [OF Some] by blast
      next
        case False
        have "settled convert fetch (rs_tables s) (indicator, l)"
          using Cons.prems p by simp
        then have "all_dropped convert (prefix_map l @ suffix)
            (prev_date_of (rs_tables s l) (prefix_map l @ suffix)) (fetch indicator l)"
          using Some False by (simp add: settled_def)
        from all_dropped_pass [OF this] show ?thesis using Inr by auto
      qed
      show ?thesis
        unfolding run
      proof
        fix e assume "e \<in> set (rs_log (fst (run_pairs convert fetch ps ?s')))"
        with IH have "e \<in> set (rs_log ?s') \<or> fst e = (''Federal_funds_interval_list'', Weekly)
           \<or> pr_updates (snd e) = [] \<and> pr_inserts (snd e) = []" by blast
        then show "e \<in> set (rs_log s) \<or> fst e = (''Federal_funds_interval_list'', Weekly)
           \<or> pr_updates (snd e) = [] \<and> pr_inserts (snd e) = []"
          using new by auto
      qed
    qed
  qed
qed

lemma run_pairs_settled_total:
  assumes "\<forall>p \<in> set ps. settled convert fetch (rs_tables s) p"
    and "(''Federal_funds_interval_list'', Weekly) \<notin> set ps"
    and "\<forall>p \<in> set ps. indicator_map (fst p) \<noteq> None"
  shows "\<exists>s2. run_pairs convert fetch ps s = (s2, None) \<and> rs_tables s2 = rs_tables s
           \<and> rs_inserted s2 = rs_inserted s \<and> map fst (rs_log s2) = map fst (rs_log s) @ ps"
  using assms
proof (induction ps arbitrary: s)
  case Nil
  then show ?case by simp
next
  case (Cons p ps)
  obtain indicator l where p: "p = (indicator, l)" by (cases p)
  obtain suffix where Some: "indicator_map indicator = Some suffix"
    using Cons.prems(3) p by auto
  have nonweekly: "prefix_map l @ suffix \<noteq> ''WEFFRP_value''"
    using weekly_rate_column [OF Some] Cons.prems(2) p by auto
  have "settled convert fetch (rs_tables s) (indicator, l)"
    using Cons.prems(1) p by simp
  then have "all_dropped convert (prefix_map l @ suffix)
      (prev_date_of (rs_tables s l) (prefix_map l @ suffix)) (fetch indicator l)"
    using Some nonweekly by (simp add: settled_def)
  from all_dropped_pass [OF this] obtain a where
    pass: "ingest_pair convert (rs_tables s l) (prefix_map l @ suffix) (fetch indicator l)
             = Inr \<lparr>pr_updates = [], pr_inserts = [], pr_available = a, pr_table = rs_tables s l\<rparr>"
    by blast
  let ?res = "\<lparr>pr_updates = [], pr_inserts = [], pr_available = a, pr_table = rs_tables s l\<rparr>
                :: 'a pair_result"
  let ?s' = "s\<lparr>rs_tables := (rs_tables s)(l := pr_table ?res),
                rs_available :=
                  (if pr_available ?res
                      \<and> (indicator, l, prev_date_of (rs_tables s l) (prefix_map l @ suffix))
                          \<notin> set (rs_available s)
                   then rs_available s
                        @ [(indicator, l, prev_date_of (rs_tables s l) (prefix_map l @ suffix))]
                   else rs_available s),
                rs_inserted := rs_inserted s + length (pr_inserts ?res),
                rs_log := rs_log s @ [((indicator, l), ?res)]\<rparr>"
  have run: "run_pairs convert fetch (p # ps) s = run_pairs convert fetch ps ?s'"
    using p Some pass by (simp add: Let_def)
  have tables: "rs_tables ?s' = rs_tables s" by simp
  have "\<forall>q \<in> set ps. settled convert fetch (rs_tables ?s') q"
    unfolding tables using Cons.prems(1) by simp
  moreover have "(''Federal_funds_interval_list'', Weekly) \<notin> set ps"
    and "\<forall>p \<in> set ps. indicator_map (fst p) \<noteq> None"
    using Cons.prems(2,3) by simp_all
  ultimately obtain s2 where "run_pairs convert fetch ps ?s' = (s2, None)"
    and "rs_tables s2 = rs_tables ?s'" and "rs_inserted s2 = rs_inserted ?s'"
    and "map fst (rs_log s2) = map fst (rs_log ?s') @ ps"
    using Cons.IH [of ?s'] by blast
  then show ?case
    unfolding run using p by simp
qed

lemma pairs_of_mapped: "\<forall>p \<in> set (pairs_of interval_list items). indicator_map (fst p) \<noteq> None"
  by (auto simp: pairs_of_def)

text \<open>
  Claim C4, as stated, at the weekly federal funds rate. The weekly table holds one row,
  dated 2024-01-01 (day 738886), with a value in the column, and upstream holds one
  entry dated 2024-01-03. The first run succeeds and stores the entry under 2023-12-29,
  in a new row, so the watermark stays at 2024-01-01. The second run, over the same
  upstream series, finds the entry newer than the watermark again and issues an update
  for the row of 2023-12-29.
\<close>

theorem idempotence_weekly_counterexample:
  "snd (process_economic_indicators (\<lambda>is_int s. Converted s)
          (\<lambda>indicator l. Payload [\<lparr>entry_date = Some 738888, entry_value = Some ''5.33''\<rparr>])
          [Weekly] [(''Federal_funds_interval_list'', [Weekly])]
          (\<lambda>l. if l = Weekly
                then [\<lparr>ir_pk = 1, ir_id = 1, ir_date = 738886,
                       ir_cols = (\<lambda>c. None)(''WEFFRP_value'' \<mapsto> ''5.33'')\<rparr>]
                else [])) = None
   \<and> map (\<lambda>e. (fst e, map (fst \<circ> snd) (pr_inserts (snd e)), length (pr_updates (snd e))))
       (rs_log (fst (process_economic_indicators (\<lambda>is_int s. Converted s)
          (\<lambda>indicator l. Payload [\<lparr>entry_date = Some 738888, entry_value = Some ''5.33''\<rparr>])
          [Weekly] [(''Federal_funds_interval_list'', [Weekly])]
          (\<lambda>l. if l = Weekly
                then [\<lparr>ir_pk = 1, ir_id = 1, ir_date = 738886,
                       ir_cols = (\<lambda>c. None)(''WEFFRP_value'' \<mapsto> ''5.33'')\<rparr>]
                else []))))
       = [((''Federal_funds_interval_list'', Weekly), [738883], 0)]
   \<and> map (\<lambda>e. (fst e, map (fst \<circ> snd) (pr_inserts (snd e)), length (pr_updates (snd e))))
       (rs_log (fst (process_economic_indicators (\<lambda>is_int s. Converted s)
          (\<lambda>indicator l. Payload [\<lparr>entry_date = Some 738888, entry_value = Some ''5.33''\<rparr>])
          [Weekly] [(''Federal_funds_interval_list'', [Weekly])]
          (rs_tables (fst (process_economic_indicators (\<lambda>is_int s. Converted s)
            (\<lambda>indicator l. Payload [\<lparr>entry_date = Some 738888, entry_value = Some ''5.33''\<rparr>])
            [Weekly] [(''Federal_funds_interval_list'', [Weekly])]
            (\<lambda>l. if l = Weekly
                  then [\<lparr>ir_pk = 1, ir_id = 1, ir_date = 738886,
                         ir_cols = (\<lambda>c. None)(''WEFFRP_value'' \<mapsto> ''5.33'')\<rparr>]
                  else [])))))))
       = [((''Federal_funds_interval_list'', Weekly), [], 1)]"
  by code_simp

text \<open>
  Claim C4 (idempotence of indicator ingestion), amended. Let a run of
  \<^verbatim>\<open>process_economic_indicators\<close> end without an error, and let it be run again on the tables
  it left, against the same upstream responses. Then for every pair other than the weekly
  federal funds rate, the second run issues no update and no insert. If the weekly
  federal funds rate is not among the pairs, the second run ends without an error, goes
  through every pair, and leaves the tables as they were, with an inserted count of zero.
\<close>

theorem ingestion_idempotence:
  assumes "process_economic_indicators convert fetch interval_list items tables = (s1, None)"
  shows "(\<forall>e \<in> set (rs_log (fst (process_economic_indicators convert fetch interval_list items
                                    (rs_tables s1)))).
            fst e \<noteq> (''Federal_funds_interval_list'', Weekly)
            \<longrightarrow> pr_updates (snd e) = [] \<and> pr_inserts (snd e) = [])
       \<and> ((''Federal_funds_interval_list'', Weekly) \<notin> set (pairs_of interval_list items) \<longrightarrow>
            (\<exists>s2. process_economic_indicators convert fetch interval_list items (rs_tables s1)
                    = (s2, None)
               \<and> rs_tables s2 = rs_tables s1 \<and> rs_inserted s2 = 0
               \<and> map fst (rs_log s2) = pairs_of interval_list items))"
proof -
  let ?ps = "pairs_of interval_list items"
  let ?init = "\<lambda>tables. \<lparr>rs_tables = tables, rs_available = [], rs_inserted = 0, rs_log = []\<rparr>
                 :: 'a run_state"
  have first: "run_pairs convert fetch ?ps (?init tables) = (s1, None)"
    using assms by (simp add: process_economic_indicators_def)
  have "\<forall>p \<in> {} \<union> set ?ps. settled convert fetch (rs_tables s1) p"
    using first by (rule run_pairs_settles) simp
  then have settled: "\<forall>p \<in> set ?ps. settled convert fetch (rs_tables (?init (rs_tables s1))) p"
    by simp
  have log: "\<forall>e \<in> set (rs_log (fst (run_pairs convert fetch ?ps (?init (rs_tables s1))))).
           e \<in> set (rs_log (?init (rs_tables s1)))
           \<or> fst e = (''Federal_funds_interval_list'', Weekly)
           \<or> pr_updates (snd e) = [] \<and> pr_inserts (snd e) = []"
    using settled by (rule run_pairs_settled_log)
  have one: "\<forall>e \<in> set (rs_log (fst (process_economic_indicators convert fetch interval_list items
                                    (rs_tables s1)))).
            fst e \<noteq> (''Federal_funds_interval_list'', Weekly)
            \<longrightarrow> pr_updates (snd e) = [] \<and> pr_inserts (snd e) = []"
    unfolding process_economic_indicators_def using log by auto
  have two: "\<exists>s2. process_economic_indicators convert fetch interval_list items (rs_tables s1)
                    = (s2, None)
               \<and> rs_tables s2 = rs_tables s1 \<and> rs_inserted s2 = 0
               \<and> map fst (rs_log s2) = pairs_of interval_list items"
    if "(''Federal_funds_interval_list'', Weekly) \<notin> set ?ps"
    using run_pairs_settled_total [OF settled that pairs_of_mapped]
    unfolding process_economic_indicators_def by simp
  show ?thesis using one two by blast
qed

text \<open>
  The theorem at a run over the monthly CPI and the monthly federal funds rate, from empty
  tables, with one upstream entry for each: the first run inserts two rows, and the second
  run goes through both pairs and leaves the tables alone.
\<close>

theorem ingestion_idempotence_witness:
  "rs_inserted (fst (process_economic_indicators (\<lambda>is_int s. Converted s)
          (\<lambda>indicator l. if indicator = ''CPI_interval_list''
                          then Payload [\<lparr>entry_date = Some 738917, entry_value = Some ''310.3''\<rparr>]
                          else Payload [\<lparr>entry_date = Some 738886, entry_value = Some ''5.33''\<rparr>])
          [Monthly]
          [(''CPI_interval_list'', [Monthly]), (''Federal_funds_interval_list'', [Monthly])]
          (\<lambda>l. []))) = 2
   \<and> (\<exists>s2. process_economic_indicators (\<lambda>is_int s. Converted s)
          (\<lambda>indicator l. if indicator = ''CPI_interval_list''
                          then Payload [\<lparr>entry_date = Some 738917, entry_value = Some ''310.3''\<rparr>]
                          else Payload [\<lparr>entry_date = Some 738886, entry_value = Some ''5.33''\<rparr>])
          [Monthly]
          [(''CPI_interval_list'', [Monthly]), (''Federal_funds_interval_list'', [Monthly])]
          (rs_tables (fst (process_economic_indicators (\<lambda>is_int s. Converted s)
            (\<lambda>indicator l. if indicator = ''CPI_interval_list''
                            then Payload [\<lparr>entry_date = Some 738917, entry_value = Some ''310.3''\<rparr>]
                            else Payload [\<lparr>entry_date = Some 738886, entry_value = Some ''5.33''\<rparr>])
            [Monthly]
            [(''CPI_interval_list'', [Monthly]), (''Federal_funds_interval_list'', [Monthly])]
            (\<lambda>l. [])))) = (s2, None)
        \<and> rs_inserted s2 = 0
        \<and> map fst (rs_log s2)
            = [(''CPI_interval_list'', Monthly), (''Federal_funds_interval_list'', Monthly)])"
proof -
  let ?conv = "\<lambda>(is_int :: bool) (s :: string). Converted s"
  let ?fetch = "\<lambda>(indicator :: string) (l :: interval).
      if indicator = ''CPI_interval_list''
      then Payload [\<lparr>entry_date = Some 738917, entry_value = Some ''310.3''\<rparr>]
      else Payload [\<lparr>entry_date = Some 738886, entry_value = Some ''5.33''\<rparr>]"
  let ?items = "[(''CPI_interval_list'', [Monthly]), (''Federal_funds_interval_list'', [Monthly])]"
  let ?tables = "(\<lambda>l. []) :: interval \<Rightarrow> string ind_row list"
  let ?run1 = "process_economic_indicators ?conv ?fetch [Monthly] ?items ?tables"
  have pairs: "pairs_of [Monthly] ?items
      = [(''CPI_interval_list'', Monthly), (''Federal_funds_interval_list'', Monthly)]"
    by (simp add: pairs_of_def indicator_map_def)
  have "snd ?run1 = None"
    by code_simp
  then have run1: "?run1 = (fst ?run1, None)"
    by (simp add: prod_eq_iff)
  have count: "rs_inserted (fst ?run1) = 2"
    by code_simp
  have absent: "(''Federal_funds_interval_list'', Weekly) \<notin> set (pairs_of [Monthly] ?items)"
    unfolding pairs by simp
  from ingestion_idempotence [OF run1, THEN conjunct2, rule_format, OF absent]
  obtain s2 where "process_economic_indicators ?conv ?fetch [Monthly] ?items (rs_tables (fst ?run1))
                     = (s2, None)"
    and "rs_inserted s2 = 0" and "map fst (rs_log s2) = pairs_of [Monthly] ?items"
    by blast
  then show ?thesis
    using count pairs by auto
qed

end
